theory Spec2Isabelle
  imports Main "HOL-Library.Word" "HOL-Library.List_Lexorder"
begin

section \<open>JavaScript strings\<close>

text \<open>
  A JavaScript string is a finite sequence of 16-bit code units. Equality, \<open>length\<close>,
  \<open>indexOf\<close>, \<open>slice\<close>, the regular expressions of the script (none has the \<open>u\<close> flag) and
  the default comparison of \<open>Array.prototype.sort\<close> all work on code units, so the model is a
  list of 16-bit words; the order on strings is the lexicographic order of the code units
  (a proper prefix is smaller).
\<close>

type_synonym jsstring = "16 word list"

definition js :: "string \<Rightarrow> jsstring" where
  \<comment> \<open>an ASCII literal of the source as code units\<close>
  "js s = map of_char s"

section \<open>The store and the merge step of \<open>main\<close>\<close>

record quote =
  qtext :: jsstring
  edition :: jsstring
  date :: jsstring

record store =
  lastUpdated :: jsstring
  quotes :: "quote list"

text \<open>
  \<open>[...new Set(xs)]\<close>: a \<open>Set\<close> keeps the first occurrence of every value, in insertion order.
\<close>

definition set_add :: "'a list \<Rightarrow> 'a \<Rightarrow> 'a list" where
  "set_add s x = (if x \<in> set s then s else s @ [x])"

definition newSet :: "'a list \<Rightarrow> 'a list" where
  "newSet xs = foldl set_add [] xs"

text \<open>\<open>xs.slice(-n)\<close>: the last \<open>n\<close> elements, all of \<open>xs\<close> when it has fewer.\<close>

definition slice_last :: "nat \<Rightarrow> 'a list \<Rightarrow> 'a list" where
  "slice_last n xs = drop (length xs - n) xs"

text \<open>
  Lines 164 to 173 of the script: the statements of \<open>main\<close> between the scraping loop and the
  write of the file, with the same local names. \<open>sort()\<close> without a comparator orders strings
  by code units.
\<close>

definition merge :: "store \<Rightarrow> quote list \<Rightarrow> store" where
  "merge existing newQuotes =
     (let allQuotes = quotes existing @ newQuotes;
          uniqueDates = sort (newSet (map date allQuotes));
          recentDates = slice_last 12 uniqueDates;
          trimmedQuotes = filter (\<lambda>q. date q \<in> set recentDates) allQuotes;
          latestDate = (if uniqueDates \<noteq> [] then last uniqueDates else lastUpdated existing)
      in \<lparr> lastUpdated = latestDate, quotes = trimmedQuotes \<rparr>)"

text \<open>
  Reading aids for the statements about the merge step: the dates of a sequence of quotes,
  what it means for a date to be among the \<open>n\<close> largest distinct dates of a sequence, and the
  invariant of a stored state.
\<close>

definition dates_of :: "quote list \<Rightarrow> jsstring set" where
  "dates_of qs = set (map date qs)"

definition among_largest :: "nat \<Rightarrow> jsstring \<Rightarrow> jsstring list \<Rightarrow> bool" where
  "among_largest n d ds = (d \<in> set ds \<and> length (filter (\<lambda>e. d < e) (remdups ds)) < n)"

definition store_inv :: "store \<Rightarrow> bool" where
  "store_inv st =
     ((quotes st \<noteq> [] \<longrightarrow> lastUpdated st = Max (dates_of (quotes st)))
      \<and> card (dates_of (quotes st)) \<le> 12)"


text \<open>
  Example data: thirteen editions already stored (one of them with two quotes) and a batch
  holding one quote of a fourteenth edition.
\<close>

definition mk_quote :: "string \<Rightarrow> string \<Rightarrow> quote" where
  "mk_quote t d = \<lparr> qtext = js t, edition = js ''Brain Food'', date = js d \<rparr>"

definition old_quotes :: "quote list" where
  "old_quotes =
     [mk_quote ''a'' ''2025-11-02'', mk_quote ''b'' ''2025-11-09'', mk_quote ''c'' ''2025-11-16'',
      mk_quote ''d'' ''2025-11-23'', mk_quote ''e'' ''2025-11-30'', mk_quote ''f'' ''2025-12-07'',
      mk_quote ''g'' ''2025-12-14'', mk_quote ''h'' ''2025-12-21'', mk_quote ''i'' ''2025-12-28'',
      mk_quote ''j'' ''2026-01-04'', mk_quote ''k'' ''2026-01-11'', mk_quote ''l'' ''2026-01-18'',
      mk_quote ''m'' ''2026-01-18'', mk_quote ''n'' ''2026-01-25'']"

definition old_store :: store where
  "old_store = \<lparr> lastUpdated = js ''2026-01-25'', quotes = old_quotes \<rparr>"

definition new_batch :: "quote list" where
  "new_batch = [mk_quote ''o'' ''2026-02-01'']"

definition kept_store :: store where
  "kept_store = \<lparr> lastUpdated = js ''2026-02-01'', quotes = drop 2 old_quotes @ new_batch \<rparr>"

subsection \<open>Sets, slices and sorted lists\<close>

lemma set_add_set: "set (set_add s x) = insert x (set s)"
  by (auto simp: set_add_def)

lemma set_add_distinct: "distinct s \<Longrightarrow> distinct (set_add s x)"
  by (auto simp: set_add_def)

lemma foldl_set_add: "set (foldl set_add s xs) = set s \<union> set xs"
  by (induction xs arbitrary: s) (auto simp: set_add_set)

lemma foldl_set_add_distinct: "distinct s \<Longrightarrow> distinct (foldl set_add s xs)"
  by (induction xs arbitrary: s) (auto simp: set_add_distinct)

lemma set_newSet: "set (newSet xs) = set xs"
  by (simp add: newSet_def foldl_set_add)

lemma distinct_newSet: "distinct (newSet xs)"
  by (simp add: newSet_def foldl_set_add_distinct)

lemma slice_last_Cons:
  "slice_last n (a # xs) = (if n \<le> length xs then slice_last n xs else a # xs)"
  by (simp add: slice_last_def Suc_diff_le)

lemma set_slice_last_subset: "set (slice_last n xs) \<subseteq> set xs"
  by (simp add: slice_last_def set_drop_subset)

lemma length_slice_last: "length (slice_last n xs) \<le> n"
  by (simp add: slice_last_def)

lemma slice_last_all: "length xs \<le> n \<Longrightarrow> slice_last n xs = xs"
  by (simp add: slice_last_def)

text \<open>
  In a sorted list without duplicates, the last \<open>n\<close> elements are those with fewer than \<open>n\<close>
  elements above them.
\<close>

lemma slice_last_largest:
  fixes xs :: "'a::linorder list"
  assumes "sorted xs" "distinct xs"
  shows "x \<in> set (slice_last n xs) \<longleftrightarrow> x \<in> set xs \<and> card {y \<in> set xs. x < y} < n"
  using assms
proof (induction xs)
  case Nil
  then show ?case by (simp add: slice_last_def)
next
  case (Cons a xs)
  have small: "\<forall>y \<in> set xs. a < y" using Cons.prems by (auto simp: less_le)
  show ?case
  proof (cases "x = a")
    case True
    have "{y \<in> set (a # xs). a < y} = set xs" using small by auto
    then have c: "card {y \<in> set (a # xs). a < y} = length xs"
      using Cons.prems by (simp add: distinct_card)
    have "a \<notin> set (slice_last n xs)"
      using set_slice_last_subset [of n xs] Cons.prems by auto
    then show ?thesis using True c by (simp add: slice_last_Cons)
  next
    case False
    show ?thesis
    proof (cases "x \<in> set xs")
      case inxs: True
      then have "a < x" using small by simp
      then have eq: "{y \<in> set (a # xs). x < y} = {y \<in> set xs. x < y}" by auto
      show ?thesis
      proof (cases "n \<le> length xs")
        case True
        then show ?thesis using Cons eq inxs by (simp add: slice_last_Cons)
      next
        case big: False
        have "card {y \<in> set xs. x < y} \<le> card (set xs)"
          by (rule card_mono) auto
        also have "\<dots> \<le> length xs" by (rule card_length)
        finally show ?thesis using big inxs eq by (simp add: slice_last_Cons)
      qed
    next
      case notin: False
      then have "x \<notin> set (slice_last n xs)" using set_slice_last_subset [of n xs] by auto
      then show ?thesis using False notin by (simp add: slice_last_Cons)
    qed
  qed
qed

lemma last_sorted_Max:
  fixes xs :: "'a::linorder list"
  assumes "sorted xs" "xs \<noteq> []"
  shows "last xs = Max (set xs)"
proof -
  have "\<forall>y \<in> set xs. y \<le> last xs"
    using assms by (induction xs) (auto split: if_splits)
  then show ?thesis using assms by (intro Max_eqI [symmetric]) auto
qed

subsection \<open>The merge step, statement by statement\<close>

definition uniqueDates :: "quote list \<Rightarrow> jsstring list" where
  \<comment> \<open>the local \<open>uniqueDates\<close> of \<open>main\<close>, as a function of \<open>allQuotes\<close>\<close>
  "uniqueDates qs = sort (newSet (map date qs))"

lemma uniqueDates_props:
  "sorted (uniqueDates qs)" "distinct (uniqueDates qs)" "set (uniqueDates qs) = dates_of qs"
  by (simp_all add: uniqueDates_def distinct_newSet set_newSet dates_of_def)

lemma uniqueDates_Nil: "uniqueDates qs = [] \<longleftrightarrow> qs = []"
proof -
  have "uniqueDates qs = [] \<longleftrightarrow> set (uniqueDates qs) = {}" by simp
  then show ?thesis by (simp add: uniqueDates_props dates_of_def)
qed

lemma merge_alt:
  "merge st new =
     \<lparr> lastUpdated = (if quotes st @ new = [] then lastUpdated st
                      else Max (dates_of (quotes st @ new))),
       quotes = filter (\<lambda>q. date q \<in> set (slice_last 12 (uniqueDates (quotes st @ new))))
                  (quotes st @ new) \<rparr>"
proof -
  have "uniqueDates (quotes st @ new) \<noteq> [] \<Longrightarrow>
        last (uniqueDates (quotes st @ new)) = Max (dates_of (quotes st @ new))"
    using last_sorted_Max [of "uniqueDates (quotes st @ new)"] by (simp add: uniqueDates_props)
  then show ?thesis
    using uniqueDates_Nil [of "quotes st @ new"]
    by (auto simp add: merge_def Let_def uniqueDates_def [symmetric])
qed

lemma among_largest_card:
  "among_largest n d ds \<longleftrightarrow> d \<in> set ds \<and> card {e \<in> set ds. d < e} < n"
proof -
  have "{x. d < x} \<inter> set ds = {e \<in> set ds. d < e}" by auto
  then show ?thesis
    by (simp add: among_largest_def distinct_length_filter)
qed

lemma recent_iff:
  "d \<in> set (slice_last n (uniqueDates qs)) \<longleftrightarrow> among_largest n d (map date qs)"
  using slice_last_largest [of "uniqueDates qs" d n]
  by (simp add: uniqueDates_props among_largest_card dates_of_def)

lemma dates_of_trimmed:
  "dates_of (quotes (merge st new)) = set (slice_last 12 (uniqueDates (quotes st @ new)))"
  using set_slice_last_subset [of 12 "uniqueDates (quotes st @ new)"]
  by (auto simp add: merge_alt dates_of_def uniqueDates_props [unfolded dates_of_def])

lemma card_dates_trimmed: "card (dates_of (quotes (merge st new))) \<le> 12"
proof -
  have "card (set (slice_last 12 (uniqueDates (quotes st @ new))))
          \<le> length (slice_last 12 (uniqueDates (quotes st @ new)))"
    by (rule card_length)
  also have "\<dots> \<le> 12" by (rule length_slice_last)
  finally show ?thesis by (simp add: dates_of_trimmed)
qed

lemma Max_among_largest:
  assumes "qs \<noteq> []"
  shows "among_largest n (Max (dates_of qs)) (map date qs) \<longleftrightarrow> 0 < n"
proof -
  have fin: "finite (dates_of qs)" and ne: "dates_of qs \<noteq> {}"
    using assms by (simp_all add: dates_of_def)
  have e: "{e \<in> set (map date qs). Max (dates_of qs) < e} = {}"
    using fin by (auto simp: dates_of_def not_less)
  have m: "Max (dates_of qs) \<in> set (map date qs)"
    using Max_in [OF fin ne] by (simp add: dates_of_def)
  show ?thesis
    unfolding among_largest_card e using m by simp
qed

lemma Max_trimmed:
  assumes "quotes st @ new \<noteq> []"
  shows "Max (dates_of (quotes (merge st new))) = Max (dates_of (quotes st @ new))"
proof (rule Max_eqI)
  show "finite (dates_of (quotes (merge st new)))" by (simp add: dates_of_def)
  show "Max (dates_of (quotes st @ new)) \<in> dates_of (quotes (merge st new))"
    using Max_among_largest [OF assms, of 12] by (simp add: dates_of_trimmed recent_iff)
  fix y assume "y \<in> dates_of (quotes (merge st new))"
  then have "y \<in> dates_of (quotes st @ new)"
    using set_slice_last_subset [of 12 "uniqueDates (quotes st @ new)"]
    by (auto simp: dates_of_trimmed uniqueDates_props)
  then show "y \<le> Max (dates_of (quotes st @ new))"
    by (simp add: dates_of_def)
qed

lemma trimmed_Nil: "quotes (merge st new) = [] \<longleftrightarrow> quotes st @ new = []"
proof
  assume e: "quotes (merge st new) = []"
  show "quotes st @ new = []"
  proof (rule ccontr)
    assume ne: "quotes st @ new \<noteq> []"
    have "Max (dates_of (quotes st @ new)) \<in> dates_of (quotes (merge st new))"
      using Max_among_largest [OF ne, of 12] by (simp add: dates_of_trimmed recent_iff)
    then show False using e by (simp add: dates_of_def)
  qed
next
  assume "quotes st @ new = []"
  then show "quotes (merge st new) = []" by (simp add: merge_alt)
qed

lemma store_inv_merge: "store_inv (merge st new)"
  unfolding store_inv_def
proof (intro conjI impI)
  assume "quotes (merge st new) \<noteq> []"
  then have ne: "quotes st @ new \<noteq> []" by (simp add: trimmed_Nil)
  then have "lastUpdated (merge st new) = Max (dates_of (quotes st @ new))"
    by (auto simp add: merge_alt)
  then show "lastUpdated (merge st new) = Max (dates_of (quotes (merge st new)))"
    by (simp add: Max_trimmed [OF ne])
next
  show "card (dates_of (quotes (merge st new))) \<le> 12" by (rule card_dates_trimmed)
qed

lemma merge_example: "merge old_store new_batch = kept_store"
  by code_simp

subsection \<open>Claims about the merge step\<close>

text \<open>
  C1. For every stored state and every batch of new quotes, the merged state has at most 12
  distinct dates, every retained quote is a quote of the combined sequence whose date is among
  the 12 largest distinct dates of that sequence, and the new \<open>lastUpdated\<close> is the largest
  date of the combined sequence before trimming, or the previous \<open>lastUpdated\<close> when the
  combined sequence is empty.
\<close>

theorem merge_retention_watermark:
  "card (dates_of (quotes (merge st new))) \<le> 12
   \<and> (\<forall>q \<in> set (quotes (merge st new)).
          q \<in> set (quotes st @ new) \<and> among_largest 12 (date q) (map date (quotes st @ new)))
   \<and> lastUpdated (merge st new) =
       (if quotes st @ new = [] then lastUpdated st else Max (dates_of (quotes st @ new)))"
proof (intro conjI)
  show "card (dates_of (quotes (merge st new))) \<le> 12" by (rule card_dates_trimmed)
  show "\<forall>q \<in> set (quotes (merge st new)).
          q \<in> set (quotes st @ new) \<and> among_largest 12 (date q) (map date (quotes st @ new))"
    by (auto simp add: merge_alt recent_iff)
  show "lastUpdated (merge st new) =
       (if quotes st @ new = [] then lastUpdated st else Max (dates_of (quotes st @ new)))"
    by (simp add: merge_alt)
qed

theorem merge_retention_watermark_witness:
  "mk_quote ''o'' ''2026-02-01'' \<in> set (quotes (merge old_store new_batch))
   \<and> among_largest 12 (js ''2026-02-01'') (map date (quotes old_store @ new_batch))
   \<and> card (dates_of (quotes (merge old_store new_batch))) \<le> 12
   \<and> lastUpdated (merge old_store new_batch) = js ''2026-02-01''
   \<and> Max (dates_of (quotes old_store @ new_batch)) = js ''2026-02-01''"
proof -
  have i: "mk_quote ''o'' ''2026-02-01'' \<in> set (quotes (merge old_store new_batch))"
    unfolding merge_example by (simp add: kept_store_def new_batch_def)
  have d: "date (mk_quote ''o'' ''2026-02-01'') = js ''2026-02-01''"
    by (simp add: mk_quote_def)
  have w: "lastUpdated (merge old_store new_batch) = js ''2026-02-01''"
    unfolding merge_example by (simp add: kept_store_def)
  have ne: "quotes old_store @ new_batch \<noteq> []" by (simp add: new_batch_def)
  show ?thesis
    using merge_retention_watermark [of old_store new_batch] i d w ne by auto
qed

lemma merge_pruned:
  "\<forall>q \<in> set (quotes st @ new).
     \<not> among_largest 12 (date q) (map date (quotes st @ new)) \<longrightarrow> q \<notin> set (quotes (merge st new))"
  by (auto simp add: merge_alt recent_iff)

lemma merge_empty_keeps_watermark:
  "quotes (merge st new) = [] \<longrightarrow> lastUpdated (merge st new) = lastUpdated st"
  by (simp add: trimmed_Nil) (simp add: merge_alt)

lemma merge_identity:
  assumes "store_inv st"
  shows "merge st [] = st"
proof -
  have len: "length (uniqueDates (quotes st)) \<le> 12"
    using assms distinct_card [OF uniqueDates_props(2), of "quotes st"]
    by (simp add: store_inv_def uniqueDates_props)
  have all: "slice_last 12 (uniqueDates (quotes st)) = uniqueDates (quotes st)"
    by (rule slice_last_all [OF len])
  have q: "filter (\<lambda>q. date q \<in> set (slice_last 12 (uniqueDates (quotes st)))) (quotes st)
            = quotes st"
    by (simp add: all uniqueDates_props dates_of_def)
  have w: "(if quotes st = [] then lastUpdated st else Max (dates_of (quotes st)))
            = lastUpdated st"
    using assms by (simp add: store_inv_def)
  have "merge st [] = \<lparr> lastUpdated = lastUpdated st, quotes = quotes st \<rparr>"
    unfolding merge_alt append_Nil2 q w ..
  then show ?thesis by simp
qed

lemma store_inv_example: "store_inv kept_store"
proof -
  have "store_inv (merge old_store new_batch)" by (rule store_inv_merge)
  then show ?thesis by (simp add: merge_example)
qed

section \<open>The fetcher\<close>

text \<open>
  What \<open>https.get\<close> can do to a request. Either the request fails (its \<open>error\<close> event), or
  a response arrives with a status code, possibly a \<open>Location\<close> header, and a body that is
  delivered in chunks and finishes with \<open>end\<close> or with \<open>error\<close>. The network is a function of
  the number of redirects followed so far and the URL asked for, so that a server may answer
  the same URL differently along a chain. Every request is answered or fails: a request that
  hangs forever is not part of this model.
\<close>

datatype error = TooManyRedirects | RequestError | ResponseError | SyntaxError

datatype stream_end = End | StreamError

record response =
  statusCode :: nat
  location :: "jsstring option"
  chunks :: "jsstring list"
  finish :: stream_end

datatype reply = Failed | Answer response

type_synonym network = "nat \<Rightarrow> jsstring \<Rightarrow> reply"

definition startsWith :: "'a list \<Rightarrow> 'a list \<Rightarrow> bool" where
  "startsWith s p = (take (length p) s = p)"

text \<open>
  The test of line 14: a status from 300 to 399 and a truthy \<open>Location\<close> header (a header that
  is absent or the empty string is falsy). The result is the header's value.
\<close>

definition redirect_location :: "response \<Rightarrow> jsstring option" where
  "redirect_location res =
     (if statusCode res \<ge> 300 \<and> statusCode res < 400
      then (case location res of
              None \<Rightarrow> None
            | Some loc \<Rightarrow> if loc = [] then None else Some loc)
      else None)"

definition next_url :: "jsstring \<Rightarrow> jsstring" where
  \<comment> \<open>line 16\<close>
  "next_url loc = (if startsWith loc (js ''http'') then loc else js ''https://fs.blog'' @ loc)"

function fetchUrl :: "network \<Rightarrow> jsstring \<Rightarrow> nat \<Rightarrow> error + jsstring" where
  "fetchUrl net url redirects =
     (if redirects > 5 then Inl TooManyRedirects
      else (case net redirects url of
              Failed \<Rightarrow> Inl RequestError
            | Answer res \<Rightarrow>
                (case redirect_location res of
                   Some loc \<Rightarrow> fetchUrl net (next_url loc) (redirects + 1)
                 | None \<Rightarrow>
                     (case finish res of
                        End \<Rightarrow> Inr (concat (chunks res))
                      | StreamError \<Rightarrow> Inl ResponseError))))"
  by pat_completeness auto
termination
  by (relation "measure (\<lambda>(net, url, redirects). 6 - redirects)") auto

declare fetchUrl.simps [simp del]

text \<open>
  A chain of \<open>n\<close> redirects starting at \<open>us 0\<close>: the request number \<open>k\<close> goes to \<open>us k\<close>, is
  answered by the redirect \<open>rs k\<close>, and the next request goes where that redirect points.
\<close>

definition redirect_chain ::
  "network \<Rightarrow> (nat \<Rightarrow> jsstring) \<Rightarrow> (nat \<Rightarrow> response) \<Rightarrow> nat \<Rightarrow> bool" where
  "redirect_chain net us rs n =
     (\<forall>k < n. net k (us k) = Answer (rs k)
            \<and> (case redirect_location (rs k) of
                  None \<Rightarrow> False
                | Some loc \<Rightarrow> us (Suc k) = next_url loc))"

text \<open>Example networks: a server that redirects \<open>/0\<close> to \<open>/1\<close>, \<open>/1\<close> to \<open>/2\<close> and so on.\<close>

definition hop_path :: "nat \<Rightarrow> jsstring" where
  "hop_path k = [of_char CHR ''/'', of_nat (48 + k)]"

definition hop_url :: "nat \<Rightarrow> jsstring" where
  "hop_url k = (if k = 0 then js ''https://fs.blog/0'' else js ''https://fs.blog'' @ hop_path k)"

definition moved :: "nat \<Rightarrow> response" where
  "moved k = \<lparr> statusCode = 301, location = Some (hop_path (Suc k)), chunks = [],
               finish = End \<rparr>"

definition page :: "nat \<Rightarrow> response" where
  "page st = \<lparr> statusCode = st, location = None, chunks = [js ''<html>'', js ''</html>''],
               finish = End \<rparr>"

definition four_hops :: network where
  "four_hops k url = (if k < 4 then Answer (moved k) else Answer (page 200))"

definition endless_hops :: network where
  "endless_hops k url = Answer (moved k)"

definition not_found :: network where
  "not_found k url = Answer (page 404)"

lemma fetchUrl_step:
  assumes "redirects \<le> 5" "net redirects url = Answer res" "redirect_location res = Some loc"
  shows "fetchUrl net url redirects = fetchUrl net (next_url loc) (Suc redirects)"
  using assms by (subst fetchUrl.simps) simp

lemma fetchUrl_final:
  assumes "redirects \<le> 5" "net redirects url = Answer res" "redirect_location res = None"
          "finish res = End"
  shows "fetchUrl net url redirects = Inr (concat (chunks res))"
  using assms by (subst fetchUrl.simps) simp

lemma fetchUrl_budget: "redirects > 5 \<Longrightarrow> fetchUrl net url redirects = Inl TooManyRedirects"
  by (subst fetchUrl.simps) simp

lemma fetchUrl_follow:
  assumes "redirect_chain net us rs n" "k \<le> n" "k \<le> 6"
  shows "fetchUrl net (us 0) 0 = fetchUrl net (us k) k"
  using assms(2,3)
proof (induction k)
  case 0
  show ?case by simp
next
  case (Suc k)
  have k: "k < n" "k \<le> 5" using Suc.prems by simp_all
  obtain loc where l: "redirect_location (rs k) = Some loc" "us (Suc k) = next_url loc"
    and a: "net k (us k) = Answer (rs k)"
    using assms(1) k(1) by (auto simp: redirect_chain_def split: option.splits)
  have "fetchUrl net (us 0) 0 = fetchUrl net (us k) k" using Suc by simp
  also have "\<dots> = fetchUrl net (us (Suc k)) (Suc k)"
    using fetchUrl_step [of k net "us k" "rs k" loc] k(2) a l by simp
  finally show ?case .
qed

lemma moved_redirect: "redirect_location (moved k) = Some (hop_path (Suc k))"
  by (simp add: redirect_location_def moved_def hop_path_def)

lemma next_hop: "next_url (hop_path (Suc k)) = hop_url (Suc k)"
  by (simp add: next_url_def hop_path_def hop_url_def startsWith_def js_def)

lemma four_hops_chain: "redirect_chain four_hops hop_url moved 4"
  by (simp add: redirect_chain_def four_hops_def moved_redirect next_hop)

lemma endless_hops_chain: "redirect_chain endless_hops hop_url moved 6"
  by (simp add: redirect_chain_def endless_hops_def moved_redirect next_hop)

lemma page_plain: "redirect_location (page st) = None" "finish (page st) = End"
  "concat (chunks (page st)) = js ''<html></html>''"
  by (simp_all add: redirect_location_def page_def js_def)

subsection \<open>Claims about the fetcher\<close>

text \<open>
  C7. The fetcher follows at most 5 redirects. When a chain of at most 5 redirects (in
  particular four of them) ends in a response that is no redirect, such as a 200, and whose
  body arrives completely, the fetch succeeds with the body of that last response. When the
  chain has 6 redirects or more, the fetch fails with the error \<open>Too many redirects\<close>. The
  fetcher is a total function, so it does not loop on a cycle of redirects.
\<close>

theorem fetch_redirect_budget:
  assumes "redirect_chain net us rs n"
  shows "(n \<le> 5 \<and> net n (us n) = Answer res \<and> redirect_location res = None \<and> finish res = End
           \<longrightarrow> fetchUrl net (us 0) 0 = Inr (concat (chunks res)))
       \<and> (n \<ge> 6 \<longrightarrow> fetchUrl net (us 0) 0 = Inl TooManyRedirects)"
proof (intro conjI impI)
  assume "n \<le> 5 \<and> net n (us n) = Answer res \<and> redirect_location res = None \<and> finish res = End"
  then show "fetchUrl net (us 0) 0 = Inr (concat (chunks res))"
    using fetchUrl_follow [OF assms, of n] fetchUrl_final [of n net "us n" res] by auto
next
  assume "n \<ge> 6"
  then show "fetchUrl net (us 0) 0 = Inl TooManyRedirects"
    using fetchUrl_follow [OF assms, of 6] fetchUrl_budget [of 6 net "us 6"] by auto
qed

theorem fetch_redirect_budget_witness:
  "redirect_chain four_hops hop_url moved 4
   \<and> four_hops 4 (hop_url 4) = Answer (page 200)
   \<and> fetchUrl four_hops (js ''https://fs.blog/0'') 0 = Inr (js ''<html></html>'')
   \<and> redirect_chain endless_hops hop_url moved 6
   \<and> fetchUrl endless_hops (js ''https://fs.blog/0'') 0 = Inl TooManyRedirects"
proof -
  have f: "four_hops 4 (hop_url 4) = Answer (page 200)" by (simp add: four_hops_def)
  have u: "hop_url 0 = js ''https://fs.blog/0''" by (simp add: hop_url_def)
  show ?thesis
    using fetch_redirect_budget [OF four_hops_chain, of "page 200"] fetch_redirect_budget [OF endless_hops_chain] four_hops_chain endless_hops_chain f u
    by (simp add: page_plain)
qed

text \<open>
  C10. Every response that is not a redirect (its status is outside 300 to 399, or it carries
  no usable \<open>Location\<close> header) and whose body arrives completely makes the fetch succeed with
  the body as text, whatever the status: the body of a 404 or a 500 page is returned to the
  caller like the body of an article.
\<close>

theorem fetch_returns_any_status:
  assumes "redirects \<le> 5" "net redirects url = Answer res" "finish res = End"
      and "\<not> (300 \<le> statusCode res \<and> statusCode res < 400
             \<and> location res \<noteq> None \<and> location res \<noteq> Some [])"
  shows "fetchUrl net url redirects = Inr (concat (chunks res))"
proof -
  have "redirect_location res = None"
    using assms(4) by (auto simp: redirect_location_def split: option.splits)
  then show ?thesis using fetchUrl_final [of redirects net url res] assms(1,2,3) by simp
qed

theorem fetch_returns_any_status_witness:
  "fetchUrl not_found (js ''https://fs.blog/brain-food/'') 0 = Inr (js ''<html></html>'')
   \<and> statusCode (page 404) = 404"
proof -
  have a: "not_found 0 (js ''https://fs.blog/brain-food/'') = Answer (page 404)"
    by (simp add: not_found_def)
  have b: "\<not> (300 \<le> statusCode (page 404) \<and> statusCode (page 404) < 400
             \<and> location (page 404) \<noteq> None \<and> location (page 404) \<noteq> Some [])"
    by (simp add: page_def)
  have s: "statusCode (page 404) = 404" by (simp add: page_def)
  show ?thesis
    using fetch_returns_any_status
            [of 0 not_found "js ''https://fs.blog/brain-food/''" "page 404"] a b s
    by (simp add: page_plain)
qed


section \<open>The slug date parser\<close>

text \<open>
  \<open>slug.split('-')\<close> cuts at every hyphen and always yields at least one part;
  \<open>parts.join(sep)\<close> puts the separator between the parts.
\<close>
fun split_char :: "'a \<Rightarrow> 'a list \<Rightarrow> 'a list list" where
  "split_char c [] = [[]]"
| "split_char c (x # xs) =
     (let ps = split_char c xs
      in if x = c then [] # ps else (x # hd ps) # tl ps)"

fun join :: "'a list \<Rightarrow> 'a list list \<Rightarrow> 'a list" where
  "join sep [] = []"
| "join sep [p] = p"
| "join sep (p # ps) = p @ sep @ join sep ps"

text \<open>\<open>\d\<close> in a regular expression without the \<open>u\<close> flag: the ten ASCII digits.\<close>

definition isDigit :: "16 word \<Rightarrow> bool" where
  "isDigit c = (48 \<le> c \<and> c \<le> 57)"

text \<open>
  \<open>MONTHS[monthName]\<close> reads a property of an object literal: an own property when the table
  has one of that name, and otherwise a property inherited from \<open>Object.prototype\<close>, whose
  properties are functions apart from the accessor \<open>__proto__\<close>, which yields
  \<open>Object.prototype\<close> itself. Only a name found in neither gives \<open>undefined\<close>. The values
  that such a read can produce, with their truthiness and their conversion by template
  literals and \<open>String\<close> (a built-in function prints as
  \<open>function name() { [native code] }\<close> in Node.js):
\<close>

datatype jsvalue = Undefined | Number nat | NativeFunction jsstring | ObjectPrototype

definition MONTHS :: "(jsstring \<times> nat) list" where
  "MONTHS =
     [(js ''january'', 1), (js ''february'', 2), (js ''march'', 3), (js ''april'', 4),
      (js ''may'', 5), (js ''june'', 6), (js ''july'', 7), (js ''august'', 8),
      (js ''september'', 9), (js ''october'', 10), (js ''november'', 11), (js ''december'', 12)]"

definition Object_prototype :: "(jsstring \<times> jsvalue) list" where
  "Object_prototype =
     [(js ''constructor'', NativeFunction (js ''Object'')),
      (js ''__defineGetter__'', NativeFunction (js ''__defineGetter__'')),
      (js ''__defineSetter__'', NativeFunction (js ''__defineSetter__'')),
      (js ''hasOwnProperty'', NativeFunction (js ''hasOwnProperty'')),
      (js ''__lookupGetter__'', NativeFunction (js ''__lookupGetter__'')),
      (js ''__lookupSetter__'', NativeFunction (js ''__lookupSetter__'')),
      (js ''isPrototypeOf'', NativeFunction (js ''isPrototypeOf'')),
      (js ''propertyIsEnumerable'', NativeFunction (js ''propertyIsEnumerable'')),
      (js ''toString'', NativeFunction (js ''toString'')),
      (js ''valueOf'', NativeFunction (js ''valueOf'')),
      (js ''__proto__'', ObjectPrototype),
      (js ''toLocaleString'', NativeFunction (js ''toLocaleString''))]"

definition get_property :: "(jsstring \<times> nat) list \<Rightarrow> jsstring \<Rightarrow> jsvalue" where
  "get_property obj key =
     (case map_of obj key of
        Some n \<Rightarrow> Number n
      | None \<Rightarrow> (case map_of Object_prototype key of Some v \<Rightarrow> v | None \<Rightarrow> Undefined))"

fun truthy :: "jsvalue \<Rightarrow> bool" where
  "truthy Undefined = False"
| "truthy (Number n) = (n \<noteq> 0)"
| "truthy (NativeFunction name) = True"
| "truthy ObjectPrototype = True"

text \<open>\<open>String(n)\<close> for a non-negative integer: its decimal digits.\<close>

definition digit :: "nat \<Rightarrow> 16 word" where
  "digit d = of_nat (48 + d)"

function String_nat :: "nat \<Rightarrow> jsstring" where
  "String_nat n = (if n < 10 then [digit n] else String_nat (n div 10) @ [digit (n mod 10)])"
  by pat_completeness auto
termination
  by (relation "measure id") auto

declare String_nat.simps [simp del]

fun String :: "jsvalue \<Rightarrow> jsstring" where
  "String Undefined = js ''undefined''"
| "String (Number n) = String_nat n"
| "String (NativeFunction name) = js ''function '' @ name @ js ''() { [native code] }''"
| "String ObjectPrototype = js ''[object Object]''"

text \<open>
  \<open>parseInt(day)\<close> is only applied to a string of one or two ASCII digits (line 56 is reached
  after the test of line 55), where it is the decimal value.
\<close>

definition parseInt :: "jsstring \<Rightarrow> nat" where
  "parseInt ds = foldl (\<lambda>n c. 10 * n + (unat c - 48)) 0 ds"

text \<open>\<open>s.padStart(n, c)\<close> with a one-character filler.\<close>

definition padStart :: "jsstring \<Rightarrow> nat \<Rightarrow> 16 word \<Rightarrow> jsstring" where
  "padStart s n c = replicate (n - length s) c @ s"

text \<open>Lines 47 to 57. \<open>None\<close> is \<open>null\<close>.\<close>

definition parseDateFromSlug :: "jsstring \<Rightarrow> jsstring option" where
  "parseDateFromSlug slug =
     (let parts = split_char (of_char CHR ''-'') slug in
      if length parts < 3 then None
      else
        let year = parts ! (length parts - 1);
            day = parts ! (length parts - 2);
            monthName = join (js ''-'') (take (length parts - 2) parts);
            month = get_property MONTHS monthName
        in if \<not> truthy month
              \<or> \<not> (length year = 4 \<and> list_all isDigit year)
              \<or> \<not> (1 \<le> length day \<and> length day \<le> 2 \<and> list_all isDigit day)
           then None
           else Some (year @ js ''-'' @ padStart (String month) 2 (of_char CHR ''0'') @ js ''-''
                      @ padStart (String_nat (parseInt day)) 2 (of_char CHR ''0'')))"

subsection \<open>What the parser accepts\<close>

text \<open>
  A month name of the table, a day of one or two digits and a year of four digits give the
  date, zero-padded. Conversely, whenever the parser returns a string, the slug consists of
  a name, a day and a year of that shape, where the name is a key of the table or the name
  of a property of \<open>Object.prototype\<close>.
\<close>

lemma split_char_none: "c \<notin> set a \<Longrightarrow> split_char c a = [a]"
  by (induction a) (auto simp: Let_def)

lemma split_char_nonempty: "split_char c s \<noteq> []"
  by (induction s) (auto simp: Let_def)

lemma split_char_first: "c \<notin> set a \<Longrightarrow> split_char c (a @ c # r) = a # split_char c r"
  by (induction a) (auto simp: Let_def)

lemma hyphen_not_digit: "list_all isDigit ds \<Longrightarrow> of_char CHR ''-'' \<notin> set ds"
  by (auto simp: list_all_iff isDigit_def)

lemma MONTHS_keys: "map_of MONTHS m = Some k \<Longrightarrow> of_char CHR ''-'' \<notin> set m \<and> 1 \<le> k \<and> k \<le> 12"
  by (auto simp: MONTHS_def js_def split: if_splits)

lemma parseDateFromSlug_table:
  assumes "map_of MONTHS m = Some k"
      and "length year = 4" "list_all isDigit year"
      and "1 \<le> length day" "length day \<le> 2" "list_all isDigit day"
  shows "parseDateFromSlug (m @ js ''-'' @ day @ js ''-'' @ year)
           = Some (year @ js ''-'' @ padStart (String_nat k) 2 (of_char CHR ''0'') @ js ''-''
                   @ padStart (String_nat (parseInt day)) 2 (of_char CHR ''0''))"
proof -
  have h: "js ''-'' = [of_char CHR ''-'']" by (simp add: js_def)
  have parts: "split_char (of_char CHR ''-'') (m @ js ''-'' @ day @ js ''-'' @ year)
                 = [m, day, year]"
    using MONTHS_keys [OF assms(1)] hyphen_not_digit [OF assms(3)] hyphen_not_digit [OF assms(6)]
    by (simp add: h split_char_first split_char_none)
  have month: "get_property MONTHS m = Number k"
    using assms(1) by (simp add: get_property_def)
  have "k \<noteq> 0" using MONTHS_keys [OF assms(1)] by simp
  then show ?thesis
    unfolding parseDateFromSlug_def parts Let_def
    using assms(2-6) by (simp add: month)
qed

lemma join_Cons: "ps \<noteq> [] \<Longrightarrow> join sep (p # ps) = p @ sep @ join sep ps"
  by (cases ps) simp_all

lemma join_split_char: "join [c] (split_char c s) = s"
proof (induction s)
  case Nil
  show ?case by simp
next
  case (Cons x xs)
  obtain p ps where ps: "split_char c xs = p # ps"
    using split_char_nonempty [of c xs] by (cases "split_char c xs") auto
  show ?case
  proof (cases "x = c")
    case True
    then show ?thesis using Cons ps by (simp add: Let_def)
  next
    case False
    then show ?thesis using Cons ps by (cases ps) (simp_all add: Let_def)
  qed
qed

lemma join_last_two:
  "xs \<noteq> [] \<Longrightarrow> join sep (xs @ [a, b]) = join sep xs @ sep @ a @ sep @ b"
proof (induction xs)
  case Nil
  then show ?case by simp
next
  case (Cons x xs)
  show ?case
  proof (cases "xs = []")
    case True
    then show ?thesis by simp
  next
    case False
    then show ?thesis using Cons by (simp add: join_Cons)
  qed
qed

lemma last_two:
  assumes "3 \<le> length ps"
  shows "ps = take (length ps - 2) ps @ [ps ! (length ps - 2), ps ! (length ps - 1)]"
proof -
  have "drop (length ps - 2) ps = [ps ! (length ps - 2), ps ! (length ps - 1)]"
  proof (rule nth_equalityI)
    show "length (drop (length ps - 2) ps) = length [ps ! (length ps - 2), ps ! (length ps - 1)]"
      using assms by simp
    fix i assume "i < length (drop (length ps - 2) ps)"
    then have "i = 0 \<or> i = 1" using assms by auto
    then show "drop (length ps - 2) ps ! i = [ps ! (length ps - 2), ps ! (length ps - 1)] ! i"
    proof
      assume "i = 0"
      then show ?thesis using assms by simp
    next
      assume i: "i = 1"
      have "length ps - 2 + 1 = length ps - 1" using assms by simp
      then show ?thesis using assms i by simp
    qed
  qed
  then show ?thesis by (metis append_take_drop_id)
qed

lemma truthy_get_property:
  "truthy (get_property MONTHS m) \<Longrightarrow> m \<in> fst ` set MONTHS \<or> m \<in> fst ` set Object_prototype"
  by (auto simp: get_property_def split: option.splits dest: map_of_SomeD intro: rev_image_eqI)

lemma parseDateFromSlug_shape:
  assumes "parseDateFromSlug s = Some d"
  shows "\<exists>m day year.
           s = m @ js ''-'' @ day @ js ''-'' @ year
           \<and> (m \<in> fst ` set MONTHS \<or> m \<in> fst ` set Object_prototype)
           \<and> length year = 4 \<and> list_all isDigit year
           \<and> 1 \<le> length day \<and> length day \<le> 2 \<and> list_all isDigit day"
proof -
  define ps where "ps = split_char (of_char CHR ''-'') s"
  define n where "n = length ps"
  have h: "js ''-'' = [of_char CHR ''-'']" by (simp add: js_def)
  have facts: "3 \<le> n" "truthy (get_property MONTHS (join (js ''-'') (take (n - 2) ps)))"
    "length (ps ! (n - 1)) = 4" "list_all isDigit (ps ! (n - 1))"
    "1 \<le> length (ps ! (n - 2))" "length (ps ! (n - 2)) \<le> 2" "list_all isDigit (ps ! (n - 2))"
    using assms unfolding parseDateFromSlug_def ps_def [symmetric] Let_def n_def [symmetric]
    by (auto split: if_splits)
  have ne: "take (n - 2) ps \<noteq> []" using facts(1) by (auto simp: n_def)
  have "s = join (js ''-'') ps" by (simp add: ps_def h join_split_char)
  also have "ps = take (n - 2) ps @ [ps ! (n - 2), ps ! (n - 1)]"
    unfolding n_def using facts(1) last_two [of ps] by (simp add: n_def)
  also have "join (js ''-'') (take (n - 2) ps @ [ps ! (n - 2), ps ! (n - 1)])
               = join (js ''-'') (take (n - 2) ps) @ js ''-'' @ ps ! (n - 2) @ js ''-''
                 @ ps ! (n - 1)"
    by (rule join_last_two [OF ne])
  finally have s: "s = join (js ''-'') (take (n - 2) ps) @ js ''-'' @ ps ! (n - 2) @ js ''-''
                 @ ps ! (n - 1)" .
  show ?thesis
    using s truthy_get_property [OF facts(2)] facts(3-7) by blast
qed

subsection \<open>Claim about the slug date parser\<close>

text \<open>
  C3 says that every slug that is not a month name of the table, a day of one or two digits
  and a year of four digits gives \<open>null\<close>. The slug \<open>constructor-22-2026\<close> is not of that
  form, since \<open>constructor\<close> is not in the table, and the parser returns a string for it that
  is not a date: the lookup \<open>MONTHS['constructor']\<close> finds the inherited function \<open>Object\<close>,
  which passes the test \<open>!month\<close> of line 55.
\<close>

theorem parseDateFromSlug_inherited_name:
  "map_of MONTHS (js ''constructor'') = None
   \<and> parseDateFromSlug (js ''constructor-22-2026'')
       = Some (js ''2026-function Object() { [native code] }-22'')"
  by code_simp

theorem parseDateFromSlug_inherited_name_witness:
  "parseDateFromSlug (js ''constructor-22-2026'') \<noteq> None
   \<and> (\<exists>d. parseDateFromSlug (js ''constructor-22-2026'') = Some d \<and> length d \<noteq> 10)"
  using parseDateFromSlug_inherited_name by (simp add: js_def)

section \<open>The text normalizer\<close>

text \<open>
  The regular expressions of the script are modelled by matchers: a matcher looks at the text
  from the current position on and gives the length of the match that starts there, if there
  is one. None of the expressions can match the empty string. \<open>str.replace(/re/g, rep)\<close>
  scans from the left: where the expression matches, the match is replaced and the scan goes
  on behind it; where it does not, the character is kept and the scan moves on by one.
\<close>
type_synonym matcher = "jsstring \<Rightarrow> nat option"

fun replace_all :: "matcher \<Rightarrow> jsstring \<Rightarrow> jsstring \<Rightarrow> jsstring" where
  "replace_all m rep [] = []"
| "replace_all m rep (c # cs) =
     (case m (c # cs) of
        Some n \<Rightarrow> rep @ replace_all m rep (drop (n - 1) cs)
      | None \<Rightarrow> c # replace_all m rep cs)"

text \<open>The characters \<open><\<close>, \<open>>\<close>, \<open>&\<close> and the space.\<close>

definition lt :: "16 word" where "lt = of_char CHR ''<''"
definition gt :: "16 word" where "gt = of_char CHR ''>''"
definition amp :: "16 word" where "amp = of_char CHR ''&''"
definition sp :: "16 word" where "sp = of_char CHR '' ''"

text \<open>
  \<open>/<[^>]+>/\<close>: a \<open><\<close>, then as many characters other than \<open>>\<close> as there are (at least
  one), then a \<open>>\<close>. Giving characters back cannot help the greedy part, since the character
  that must follow is the one it stops at.
\<close>

definition tag :: matcher where
  "tag s =
     (case s of
        [] \<Rightarrow> None
      | c # r \<Rightarrow>
          if c = lt
          then (let body = takeWhile (\<lambda>x. x \<noteq> gt) r
                in if body \<noteq> [] \<and> length body < length r then Some (length body + 2) else None)
          else None)"

text \<open>\<open>/lit1|lit2/\<close>: the first of the literal alternatives that the text starts with.\<close>

fun alternatives :: "jsstring list \<Rightarrow> matcher" where
  "alternatives [] s = None"
| "alternatives (p # ps) s = (if startsWith s p then Some (length p) else alternatives ps s)"

text \<open>
  \<open>/&#\d+;/\<close> and \<open>/&[a-z]+;/\<close>: a fixed start, a greedy non-empty run of one class of
  characters, and a semicolon. The semicolon is in neither class, so it has to come right
  after the whole run.
\<close>

definition isLower :: "16 word \<Rightarrow> bool" where
  "isLower c = (97 \<le> c \<and> c \<le> 122)"

definition entity :: "jsstring \<Rightarrow> (16 word \<Rightarrow> bool) \<Rightarrow> matcher" where
  "entity start cls s =
     (if startsWith s start
      then (let run = takeWhile cls (drop (length start) s)
            in if run \<noteq> [] \<and> startsWith (drop (length start + length run) s) (js '';'')
               then Some (length start + length run + 1) else None)
      else None)"

text \<open>
  \<open>\s\<close>, which is also what \<open>trim()\<close> removes: the white space and line terminator code
  units of ECMAScript.
\<close>

definition isSpace :: "16 word \<Rightarrow> bool" where
  "isSpace c = (c \<in> set [0x9, 0xA, 0xB, 0xC, 0xD, 0x20, 0xA0, 0x1680, 0x2000, 0x2001, 0x2002,
                        0x2003, 0x2004, 0x2005, 0x2006, 0x2007, 0x2008, 0x2009, 0x200A, 0x2028,
                        0x2029, 0x202F, 0x205F, 0x3000, 0xFEFF])"

definition whitespace :: matcher where
  "whitespace s = (let run = takeWhile isSpace s in if run \<noteq> [] then Some (length run) else None)"

definition trim :: "jsstring \<Rightarrow> jsstring" where
  "trim s = rev (dropWhile isSpace (rev (dropWhile isSpace s)))"

text \<open>Lines 27 to 45: the replacements in the order of the source, innermost first.\<close>

definition stripHtml :: "jsstring \<Rightarrow> jsstring" where
  "stripHtml str =
     trim
      (replace_all whitespace [sp]
      (replace_all (entity (js ''&'') isLower) []
      (replace_all (entity (js ''&#'') isDigit) []
      (replace_all (alternatives [js ''&nbsp;'']) [sp]
      (replace_all (alternatives [js ''&#8211;'', js ''&ndash;'']) [0x2013]
      (replace_all (alternatives [js ''&#8212;'', js ''&mdash;'']) [0x2014]
      (replace_all (alternatives [js ''&#8217;'', js ''&rsquo;'']) [0x2019]
      (replace_all (alternatives [js ''&#8216;'', js ''&lsquo;'']) [0x2018]
      (replace_all (alternatives [js ''&#8221;'', js ''&rdquo;'']) [0x201D]
      (replace_all (alternatives [js ''&#8220;'', js ''&ldquo;'']) [0x201C]
      (replace_all (alternatives [js ''&quot;'']) (js ''\"'')
      (replace_all (alternatives [js ''&gt;'']) [gt]
      (replace_all (alternatives [js ''&lt;'']) [lt]
      (replace_all (alternatives [js ''&amp;'']) [amp]
      (replace_all tag [] str)))))))))))))))"

text \<open>
  Reading aids for the statements about the normalizer: a text in which a matcher matches
  nowhere, and a text whose white space consists of single spaces between other characters.
\<close>

fun nomatch :: "matcher \<Rightarrow> jsstring \<Rightarrow> bool" where
  "nomatch m [] = True"
| "nomatch m (c # cs) = (m (c # cs) = None \<and> nomatch m cs)"

fun single_spaced :: "jsstring \<Rightarrow> bool" where
  "single_spaced [] = True"
| "single_spaced (c # cs) =
     ((isSpace c \<longrightarrow> c = sp \<and> (cs = [] \<or> \<not> isSpace (hd cs))) \<and> single_spaced cs)"

text \<open>
  The replacements of \<open>stripHtml\<close> before the white space is collapsed, as a list of
  matchers with their replacement texts; a normalized text that holds no markup, that is,
  no tag and no entity reference of the shapes \<open>&#digits;\<close> and \<open>&name;\<close>; and a
  replacement that always puts a shorter text in the place of a match.
\<close>

definition decode_steps :: "(matcher \<times> jsstring) list" where
  "decode_steps =
     [(tag, []),
      (alternatives [js ''&amp;''], [amp]),
      (alternatives [js ''&lt;''], [lt]),
      (alternatives [js ''&gt;''], [gt]),
      (alternatives [js ''&quot;''], js ''\"''),
      (alternatives [js ''&#8220;'', js ''&ldquo;''], [0x201C]),
      (alternatives [js ''&#8221;'', js ''&rdquo;''], [0x201D]),
      (alternatives [js ''&#8216;'', js ''&lsquo;''], [0x2018]),
      (alternatives [js ''&#8217;'', js ''&rsquo;''], [0x2019]),
      (alternatives [js ''&#8212;'', js ''&mdash;''], [0x2014]),
      (alternatives [js ''&#8211;'', js ''&ndash;''], [0x2013]),
      (alternatives [js ''&nbsp;''], [sp]),
      (entity (js ''&#'') isDigit, []),
      (entity (js ''&'') isLower, [])]"

definition no_markup :: "jsstring \<Rightarrow> bool" where
  "no_markup s =
     (nomatch tag s \<and> nomatch (entity (js ''&#'') isDigit) s \<and> nomatch (entity (js ''&'') isLower) s)"

definition shrinking :: "matcher \<Rightarrow> jsstring \<Rightarrow> bool" where
  "shrinking m rep = (\<forall>t n. m t = Some n \<longrightarrow> length rep < n \<and> n \<le> length t)"

subsection \<open>Replacing matches\<close>

lemma replace_all_Some:
  "m (c # cs) = Some n \<Longrightarrow>
   replace_all m rep (c # cs) = rep @ replace_all m rep (drop (n - 1) cs)"
  by simp

lemma replace_all_None:
  "m (c # cs) = None \<Longrightarrow> replace_all m rep (c # cs) = c # replace_all m rep cs"
  by simp

declare replace_all.simps(2) [simp del]

lemma replace_all_nomatch: "nomatch m s \<Longrightarrow> replace_all m rep s = s"
  by (induction s) (auto simp: replace_all_None)

lemma set_replace_all: "set (replace_all m rep s) \<subseteq> set s \<union> set rep"
proof (induction m rep s rule: replace_all.induct)
  case (1 m rep)
  show ?case by simp
next
  case (2 m rep c cs)
  show ?case
  proof (cases "m (c # cs)")
    case None
    then show ?thesis using 2(1) [OF None] by (auto simp: replace_all_None)
  next
    case (Some n)
    have "set (drop (n - 1) cs) \<subseteq> set cs" by (rule set_drop_subset)
    then show ?thesis using Some 2(2) [OF Some] by (auto simp: replace_all_Some)
  qed
qed

lemma alternatives_Some: "alternatives ps s = Some n \<Longrightarrow> \<exists>p \<in> set ps. startsWith s p"
  by (induction ps) (auto split: if_splits)

lemma startsWith_hd: "startsWith s (a # p) \<Longrightarrow> s \<noteq> [] \<and> hd s = a"
  by (cases s) (auto simp: startsWith_def)

lemma nomatch_absent:
  assumes "\<And>t n. m t = Some n \<Longrightarrow> t \<noteq> [] \<and> hd t = a" "a \<notin> set s"
  shows "nomatch m s"
  using assms(2)
proof (induction s)
  case Nil
  show ?case by simp
next
  case (Cons c cs)
  have "m (c # cs) = None"
  proof (cases "m (c # cs)")
    case (Some n)
    then show ?thesis using assms(1) [OF Some] Cons.prems by simp
  qed simp
  then show ?case using Cons by simp
qed

lemma entity_amp: "entity (amp # r) cls t = Some n \<Longrightarrow> t \<noteq> [] \<and> hd t = amp"
  by (auto simp: entity_def Let_def dest: startsWith_hd split: if_splits)

lemma js_amp: "js (CHR ''&'' # r) = amp # js r"
  by (simp add: js_def amp_def)

lemma alternatives_amp:
  assumes "\<forall>p \<in> set ps. p \<noteq> [] \<and> hd p = amp" "alternatives ps t = Some n"
  shows "t \<noteq> [] \<and> hd t = amp"
proof -
  obtain p where p: "p \<in> set ps" "startsWith t p" using alternatives_Some [OF assms(2)] by auto
  have "p \<noteq> []" "hd p = amp" using p(1) assms(1) by auto
  then have "p = amp # tl p" by (cases p) auto
  then show ?thesis using p(2) startsWith_hd [of t amp "tl p"] by simp
qed


subsection \<open>Stripping tags leaves no tag\<close>

lemma tag_Nil: "tag [] = None"
  by (simp add: tag_def)

lemma tag_other: "c \<noteq> lt \<Longrightarrow> tag (c # r) = None"
  by (simp add: tag_def)

lemma length_takeWhile_less:
  "length (takeWhile P xs) < length xs \<longleftrightarrow> (\<exists>x \<in> set xs. \<not> P x)"
  by (induction xs) auto

lemma tag_lt_None: "tag (lt # r) = None \<longleftrightarrow> r = [] \<or> hd r = gt \<or> gt \<notin> set r"
proof (cases r)
  case Nil
  then show ?thesis by (simp add: tag_def)
next
  case (Cons d ds)
  have "length (takeWhile (\<lambda>x. x \<noteq> gt) r) < length r \<longleftrightarrow> gt \<in> set r"
    using length_takeWhile_less [of "\<lambda>x. x \<noteq> gt" r] by simp
  then show ?thesis using Cons by (auto simp: tag_def Let_def)
qed

lemma gt_lt: "gt \<noteq> lt"
  by (simp add: gt_def lt_def)

lemma nomatch_tag_replace: "nomatch tag (replace_all tag [] s)"
proof (induction s rule: length_induct)
  case (1 s)
  show ?case
  proof (cases s)
    case Nil
    then show ?thesis by simp
  next
    case (Cons c cs)
    show ?thesis
    proof (cases "tag (c # cs)")
      case (Some n)
      have "length (drop (n - 1) cs) < length s" using Cons by simp
      then have "nomatch tag (replace_all tag [] (drop (n - 1) cs))" using 1 by blast
      then show ?thesis using Cons Some by (simp add: replace_all_Some)
    next
      case None
      have ih: "nomatch tag (replace_all tag [] cs)" using 1 Cons by simp
      have "tag (c # replace_all tag [] cs) = None"
      proof (cases "c = lt")
        case False
        then show ?thesis by (rule tag_other)
      next
        case True
        then have "cs = [] \<or> hd cs = gt \<or> gt \<notin> set cs"
          using None tag_lt_None [of cs] by simp
        then consider "cs = []" | "cs \<noteq> []" "hd cs = gt" | "gt \<notin> set cs"
          by blast
        then show ?thesis
        proof cases
          case 1
          then show ?thesis using True by (simp add: tag_lt_None)
        next
          case 2
          then obtain ds where ds: "cs = gt # ds" by (cases cs) auto
          have "tag (gt # ds) = None" using gt_lt by (rule tag_other)
          then show ?thesis using True ds by (simp add: tag_lt_None replace_all_None)
        next
          case 3
          then have "gt \<notin> set (replace_all tag [] cs)"
            using set_replace_all [of tag "[]" cs] by auto
          then show ?thesis using True by (simp add: tag_lt_None)
        qed
      qed
      then show ?thesis using Cons None ih by (simp add: replace_all_None)
    qed
  qed
qed


subsection \<open>Parts of a text without tags\<close>

lemma nomatch_drop: "nomatch m s \<Longrightarrow> nomatch m (drop k s)"
proof (induction s arbitrary: k)
  case Nil
  show ?case by simp
next
  case (Cons c cs)
  then show ?case by (cases k) auto
qed

lemma nomatch_dropWhile: "nomatch m s \<Longrightarrow> nomatch m (dropWhile P s)"
  by (simp add: dropWhile_eq_drop nomatch_drop)

lemma nomatch_tag_prefix: "nomatch tag (xs @ ys) \<Longrightarrow> nomatch tag xs"
proof (induction xs)
  case Nil
  show ?case by simp
next
  case (Cons c cs)
  have "tag (c # cs) = None"
  proof (cases "c = lt")
    case False
    then show ?thesis by (rule tag_other)
  next
    case True
    then have "tag (lt # cs @ ys) = None" using Cons.prems by simp
    then have "cs = [] \<or> hd cs = gt \<or> gt \<notin> set cs"
      by (cases cs) (auto simp: tag_lt_None)
    then show ?thesis using True by (simp add: tag_lt_None)
  qed
  then show ?case using Cons by simp
qed

lemma trim_prefix: "rev (dropWhile P (rev a)) @ rev (takeWhile P (rev a)) = a"
proof -
  have "rev (takeWhile P (rev a) @ dropWhile P (rev a)) = a" by simp
  then show ?thesis by (simp only: rev_append)
qed

lemma nomatch_tag_trim: "nomatch tag s \<Longrightarrow> nomatch tag (trim s)"
proof -
  assume "nomatch tag s"
  then have "nomatch tag (dropWhile isSpace s)" by (rule nomatch_dropWhile)
  then have "nomatch tag (trim s @ rev (takeWhile isSpace (rev (dropWhile isSpace s))))"
    by (simp add: trim_def trim_prefix)
  then show ?thesis by (rule nomatch_tag_prefix)
qed

lemma set_trim: "set (trim s) \<subseteq> set s"
proof -
  have "set (trim s) \<subseteq> set (dropWhile isSpace s)"
    using set_dropWhileD [of _ isSpace "rev (dropWhile isSpace s)"] by (auto simp: trim_def)
  then show ?thesis using set_dropWhileD [of _ isSpace s] by auto
qed

subsection \<open>Collapsing and trimming white space\<close>

lemma whitespace_None: "\<not> isSpace c \<Longrightarrow> whitespace (c # cs) = None"
  by (simp add: whitespace_def)

lemma whitespace_Some:
  "isSpace c \<Longrightarrow> whitespace (c # cs) = Some (Suc (length (takeWhile isSpace cs)))"
  by (simp add: whitespace_def)

lemma replace_ws_other:
  "\<not> isSpace c \<Longrightarrow> replace_all whitespace rep (c # cs) = c # replace_all whitespace rep cs"
  by (simp add: whitespace_None replace_all_None)

lemma replace_ws_space:
  "isSpace c \<Longrightarrow>
   replace_all whitespace rep (c # cs) = rep @ replace_all whitespace rep (dropWhile isSpace cs)"
  by (simp add: whitespace_Some dropWhile_eq_drop replace_all_Some)

lemma space_facts: "isSpace sp" "\<not> isSpace gt" "\<not> isSpace lt" "sp \<noteq> lt" "sp \<noteq> gt" "sp \<noteq> amp"
  by (simp_all add: isSpace_def sp_def gt_def lt_def amp_def)

lemma nomatch_tag_collapse:
  "nomatch tag s \<Longrightarrow> nomatch tag (replace_all whitespace [sp] s)"
proof (induction s rule: length_induct)
  case (1 s)
  show ?case
  proof (cases s)
    case Nil
    then show ?thesis by simp
  next
    case (Cons c cs)
    show ?thesis
    proof (cases "isSpace c")
      case True
      have "nomatch tag (dropWhile isSpace cs)"
        using "1.prems" Cons by (simp add: nomatch_dropWhile)
      moreover have "length (dropWhile isSpace cs) < length s"
        using Cons length_dropWhile_le [of isSpace cs] by simp
      ultimately have "nomatch tag (replace_all whitespace [sp] (dropWhile isSpace cs))"
        using "1.IH" by blast
      then show ?thesis
        using Cons True space_facts(4) by (simp add: replace_ws_space tag_other)
    next
      case False
      have ih: "nomatch tag (replace_all whitespace [sp] cs)"
        using "1.IH" "1.prems" Cons by simp
      have "tag (c # replace_all whitespace [sp] cs) = None"
      proof (cases "c = lt")
        case False
        then show ?thesis by (rule tag_other)
      next
        case True
        then have "cs = [] \<or> hd cs = gt \<or> gt \<notin> set cs"
          using "1.prems" Cons tag_lt_None [of cs] by simp
        then consider "cs = []" | "cs \<noteq> []" "hd cs = gt" | "gt \<notin> set cs"
          by blast
        then show ?thesis
        proof cases
          case 1
          then show ?thesis using True by (simp add: tag_lt_None)
        next
          case 2
          then obtain ds where ds: "cs = gt # ds" by (cases cs) auto
          show ?thesis using True ds space_facts(2) by (simp add: tag_lt_None replace_ws_other)
        next
          case 3
          then have "gt \<notin> set (replace_all whitespace [sp] cs)"
            using set_replace_all [of whitespace "[sp]" cs] space_facts(5) by auto
          then show ?thesis using True by (simp add: tag_lt_None)
        qed
      qed
      then show ?thesis using Cons False ih by (simp add: replace_ws_other)
    qed
  qed
qed

lemma replace_ws_head:
  "s \<noteq> [] \<Longrightarrow> \<not> isSpace (hd s) \<Longrightarrow>
   replace_all whitespace rep s \<noteq> [] \<and> hd (replace_all whitespace rep s) = hd s"
  by (cases s) (auto simp: replace_ws_other)

lemma single_spaced_collapse: "single_spaced (replace_all whitespace [sp] s)"
proof (induction s rule: length_induct)
  case (1 s)
  show ?case
  proof (cases s)
    case Nil
    then show ?thesis by simp
  next
    case (Cons c cs)
    show ?thesis
    proof (cases "isSpace c")
      case True
      define r where "r = dropWhile isSpace cs"
      have "length r < length s"
        using Cons length_dropWhile_le [of isSpace cs] by (simp add: r_def)
      then have ih: "single_spaced (replace_all whitespace [sp] r)" using 1 by blast
      have "r = [] \<or> \<not> isSpace (hd r)"
        unfolding r_def using hd_dropWhile [of isSpace cs] by blast
      then have "replace_all whitespace [sp] r = []
                 \<or> \<not> isSpace (hd (replace_all whitespace [sp] r))"
        using replace_ws_head [of r "[sp]"] by (cases "r = []") simp_all
      then show ?thesis using Cons True ih by (simp add: replace_ws_space r_def [symmetric])
    next
      case False
      have "single_spaced (replace_all whitespace [sp] cs)" using 1 Cons by simp
      then show ?thesis using Cons False by (simp add: replace_ws_other)
    qed
  qed
qed

lemma collapse_single_spaced: "single_spaced s \<Longrightarrow> replace_all whitespace [sp] s = s"
proof (induction s)
  case Nil
  show ?case by simp
next
  case (Cons c cs)
  show ?case
  proof (cases "isSpace c")
    case True
    then have "c = sp" "cs = [] \<or> \<not> isSpace (hd cs)" using Cons.prems by auto
    then have "dropWhile isSpace cs = cs" by (cases cs) auto
    then show ?thesis using True Cons \<open>c = sp\<close> by (simp add: replace_ws_space)
  next
    case False
    then show ?thesis using Cons by (simp add: replace_ws_other)
  qed
qed

lemma single_spaced_drop: "single_spaced s \<Longrightarrow> single_spaced (drop k s)"
proof (induction s arbitrary: k)
  case Nil
  show ?case by simp
next
  case (Cons c cs)
  then show ?case by (cases k) auto
qed

lemma single_spaced_prefix: "single_spaced (xs @ ys) \<Longrightarrow> single_spaced xs"
proof (induction xs)
  case Nil
  show ?case by simp
next
  case (Cons c cs)
  then show ?case by (cases cs) auto
qed

lemma single_spaced_trim: "single_spaced s \<Longrightarrow> single_spaced (trim s)"
proof -
  assume "single_spaced s"
  then have "single_spaced (dropWhile isSpace s)"
    by (simp add: dropWhile_eq_drop single_spaced_drop)
  then have "single_spaced (trim s @ rev (takeWhile isSpace (rev (dropWhile isSpace s))))"
    by (simp add: trim_def trim_prefix)
  then show ?thesis by (rule single_spaced_prefix)
qed

lemma dropWhile_hd: "dropWhile P xs = [] \<or> \<not> P (hd (dropWhile P xs))"
  using hd_dropWhile [of P xs] by blast

lemma dropWhile_last: "dropWhile P xs \<noteq> [] \<Longrightarrow> last (dropWhile P xs) = last xs"
  by (metis last_appendR takeWhile_dropWhile_id)

lemma dropWhile_id: "xs = [] \<or> \<not> P (hd xs) \<Longrightarrow> dropWhile P xs = xs"
  by (cases xs) auto

lemma trim_ends: "trim s = [] \<or> (\<not> isSpace (hd (trim s)) \<and> \<not> isSpace (last (trim s)))"
proof (cases "trim s = []")
  case True
  then show ?thesis by simp
next
  case False
  define a where "a = dropWhile isSpace s"
  define b where "b = dropWhile isSpace (rev a)"
  have t: "trim s = rev b" by (simp add: trim_def a_def b_def)
  have b: "b \<noteq> []" using False t by simp
  then have hb: "\<not> isSpace (hd b)"
    using dropWhile_hd [of isSpace "rev a"] unfolding b_def by blast
  have a: "a \<noteq> []"
  proof
    assume "a = []"
    then have "b = []" by (simp add: b_def)
    then show False using b by simp
  qed
  then have ha: "\<not> isSpace (hd a)"
    using dropWhile_hd [of isSpace s] unfolding a_def by blast
  have "last b = last (rev a)"
    using b dropWhile_last [of isSpace "rev a"] unfolding b_def by blast
  then have "hd (trim s) = hd a" using a b by (simp add: t hd_rev last_rev)
  moreover have "last (trim s) = hd b" using b by (simp add: t last_rev)
  ultimately show ?thesis using ha hb by simp
qed

lemma trim_trim: "trim (trim s) = trim s"
proof (cases "trim s = []")
  case True
  have "trim [] = []" by (simp add: trim_def)
  then show ?thesis using True by simp
next
  case False
  then have e: "\<not> isSpace (hd (trim s))" "\<not> isSpace (last (trim s))"
    using trim_ends [of s] by auto
  have 1: "dropWhile isSpace (trim s) = trim s"
    using e(1) by (intro dropWhile_id) simp
  have "hd (rev (trim s)) = last (trim s)" using False by (simp add: hd_rev)
  then have 2: "dropWhile isSpace (rev (trim s)) = rev (trim s)"
    using e(2) by (intro dropWhile_id) simp
  show ?thesis
    unfolding trim_def [of "trim s"] 1 2 by simp
qed


subsection \<open>Texts without an ampersand\<close>

lemma alternatives_id:
  assumes "amp \<notin> set t" "\<forall>p \<in> set ps. p \<noteq> [] \<and> hd p = amp"
  shows "replace_all (alternatives ps) rep t = t"
proof (rule replace_all_nomatch, rule nomatch_absent [where a = amp])
  show "amp \<notin> set t" by (rule assms(1))
  fix u n assume "alternatives ps u = Some n"
  then show "u \<noteq> [] \<and> hd u = amp" using alternatives_amp [OF assms(2)] by blast
qed

lemma entity_id:
  assumes "amp \<notin> set t"
  shows "replace_all (entity (amp # r) cls) rep t = t"
proof (rule replace_all_nomatch, rule nomatch_absent [where a = amp])
  show "amp \<notin> set t" by (rule assms(1))
  fix u n assume "entity (amp # r) cls u = Some n"
  then show "u \<noteq> [] \<and> hd u = amp" by (rule entity_amp)
qed

lemma stripHtml_no_amp:
  assumes "amp \<notin> set x"
  shows "stripHtml x = trim (replace_all whitespace [sp] (replace_all tag [] x))"
proof -
  have t: "amp \<notin> set (replace_all tag [] x)"
    using assms set_replace_all [of tag "[]" x] by auto
  have e: "replace_all (entity (js ''&'') cls) rep (replace_all tag [] x) = replace_all tag [] x"
          "replace_all (entity (js ''&#'') cls) rep (replace_all tag [] x) = replace_all tag [] x"
    for cls rep
    using entity_id [OF t] by (simp_all add: js_amp)
  have a: "replace_all (alternatives [js (CHR ''&'' # p)]) rep (replace_all tag [] x)
             = replace_all tag [] x"
          "replace_all (alternatives [js (CHR ''&'' # p), js (CHR ''&'' # q)]) rep
             (replace_all tag [] x) = replace_all tag [] x"
    for p q rep
    using alternatives_id [OF t] by (simp_all add: js_amp)
  show ?thesis
    unfolding stripHtml_def by (simp only: a e)
qed

lemma stripHtml_idempotent_no_ampersand:
  assumes "amp \<notin> set x"
  shows "stripHtml (stripHtml x) = stripHtml x"
proof -
  define t where "t = replace_all tag [] x"
  define w where "w = replace_all whitespace [sp] t"
  have x: "stripHtml x = trim w" using stripHtml_no_amp [OF assms] by (simp add: t_def w_def)
  have "amp \<notin> set t" using assms set_replace_all [of tag "[]" x] by (auto simp: t_def)
  then have "amp \<notin> set w"
    using set_replace_all [of whitespace "[sp]" t] space_facts(6) by (auto simp: w_def)
  then have u: "amp \<notin> set (trim w)" using set_trim [of w] by auto
  have "nomatch tag t" unfolding t_def by (rule nomatch_tag_replace)
  then have "nomatch tag w" unfolding w_def by (rule nomatch_tag_collapse)
  then have "nomatch tag (trim w)" by (rule nomatch_tag_trim)
  then have 1: "replace_all tag [] (trim w) = trim w" by (rule replace_all_nomatch)
  have "single_spaced w" unfolding w_def by (rule single_spaced_collapse)
  then have "single_spaced (trim w)" by (rule single_spaced_trim)
  then have 2: "replace_all whitespace [sp] (trim w) = trim w" by (rule collapse_single_spaced)
  have "stripHtml (trim w) = trim (trim w)"
    using stripHtml_no_amp [OF u] by (simp only: 1 2)
  then show ?thesis by (simp only: x trim_trim)
qed

subsection \<open>When a second pass changes nothing\<close>

lemma stripHtml_steps:
  "stripHtml x
     = trim (replace_all whitespace [sp] (foldl (\<lambda>s (m, rep). replace_all m rep s) x decode_steps))"
  by (simp add: stripHtml_def decode_steps_def)

lemma length_replace_all_le:
  assumes "\<And>t n. m t = Some n \<Longrightarrow> length rep \<le> n \<and> n \<le> length t"
  shows "length (replace_all m rep s) \<le> length s"
proof (induction s rule: length_induct)
  case (1 s)
  show ?case
  proof (cases s)
    case Nil
    then show ?thesis by simp
  next
    case (Cons c cs)
    show ?thesis
    proof (cases "m (c # cs)")
      case None
      have "length (replace_all m rep cs) \<le> length cs" using 1 Cons by simp
      then show ?thesis using Cons None by (simp add: replace_all_None)
    next
      case (Some n)
      have n: "length rep \<le> n" "n \<le> Suc (length cs)" using assms [OF Some] by simp_all
      have "length (drop (n - 1) cs) < length s" using Cons by simp
      then have "length (replace_all m rep (drop (n - 1) cs)) \<le> length (drop (n - 1) cs)"
        using 1 by blast
      then show ?thesis using Cons Some n by (simp add: replace_all_Some)
    qed
  qed
qed

lemma length_replace_all_less:
  assumes "shrinking m rep" "\<not> nomatch m s"
  shows "length (replace_all m rep s) < length s"
  using assms(2)
proof (induction s)
  case Nil
  then show ?case by simp
next
  case (Cons c cs)
  have le: "length (replace_all m rep u) \<le> length u" for u
    by (rule length_replace_all_le) (use assms(1) in \<open>auto simp: shrinking_def dest: less_imp_le\<close>)
  show ?case
  proof (cases "m (c # cs)")
    case None
    then have "\<not> nomatch m cs" using Cons.prems by simp
    then show ?thesis using Cons.IH None by (simp add: replace_all_None)
  next
    case (Some n)
    have "length rep < n \<and> n \<le> length (c # cs)"
      using assms(1) Some unfolding shrinking_def by blast
    then have n: "length rep < n" "n \<le> Suc (length cs)" by simp_all
    have "length (replace_all m rep (drop (n - 1) cs)) \<le> length (drop (n - 1) cs)" by (rule le)
    then show ?thesis using Some n by (simp add: replace_all_Some)
  qed
qed

lemma foldl_steps:
  assumes "\<forall>(m, rep) \<in> set steps. shrinking m rep"
  shows "((\<forall>(m, rep) \<in> set steps. nomatch m s) \<longrightarrow>
            foldl (\<lambda>s (m, rep). replace_all m rep s) s steps = s)
         \<and> (\<not> (\<forall>(m, rep) \<in> set steps. nomatch m s) \<longrightarrow>
            length (foldl (\<lambda>s (m, rep). replace_all m rep s) s steps) < length s)"
  using assms
proof (induction steps arbitrary: s)
  case Nil
  show ?case by simp
next
  case (Cons st steps)
  obtain m rep where st: "st = (m, rep)" by (cases st)
  have sh: "shrinking m rep" using Cons.prems st by simp
  have ih: "((\<forall>(m, rep) \<in> set steps. nomatch m u) \<longrightarrow>
            foldl (\<lambda>s (m, rep). replace_all m rep s) u steps = u)
         \<and> (\<not> (\<forall>(m, rep) \<in> set steps. nomatch m u) \<longrightarrow>
            length (foldl (\<lambda>s (m, rep). replace_all m rep s) u steps) < length u)" for u
    using Cons.IH [of u] Cons.prems by simp
  show ?case
  proof (cases "nomatch m s")
    case True
    then have "replace_all m rep s = s" by (rule replace_all_nomatch)
    then show ?thesis using ih [of s] True st by simp
  next
    case False
    have "length (replace_all m rep s) < length s" using sh False by (rule length_replace_all_less)
    moreover have "length (foldl (\<lambda>s (m, rep). replace_all m rep s) (replace_all m rep s) steps)
                     \<le> length (replace_all m rep s)"
      using ih [of "replace_all m rep s"] by (cases "\<forall>(m, rep) \<in> set steps. nomatch m (replace_all m rep s)") auto
    ultimately have "length (foldl (\<lambda>s (m, rep). replace_all m rep s) (replace_all m rep s) steps)
                       < length s" by simp
    then show ?thesis using False st by auto
  qed
qed

lemma startsWith_length: "startsWith t p \<Longrightarrow> length p \<le> length t"
  unfolding startsWith_def by (metis length_take min.cobounded1)

lemma shrinking_tag: "shrinking tag []"
  by (auto simp: shrinking_def tag_def Let_def split: list.splits if_splits)

lemma alternatives_Some_length:
  "alternatives ps t = Some n \<Longrightarrow> \<exists>p \<in> set ps. startsWith t p \<and> n = length p"
  by (induction ps) (auto split: if_splits)

lemma shrinking_alternatives:
  "\<forall>p \<in> set ps. length rep < length p \<Longrightarrow> shrinking (alternatives ps) rep"
  unfolding shrinking_def using alternatives_Some_length startsWith_length by blast

lemma shrinking_entity: "shrinking (entity start cls) []"
proof -
  have "length start + length run + 1 \<le> length t"
    if "startsWith (drop (length start + length run) t) (js '';'')" for run t
  proof -
    have "1 \<le> length (drop (length start + length run) t)"
      using startsWith_length [OF that] by (simp add: js_def)
    then show ?thesis by simp
  qed
  then show ?thesis
    by (auto simp: shrinking_def entity_def Let_def split: if_splits)
qed

lemma shrinking_decode_steps: "\<forall>(m, rep) \<in> set decode_steps. shrinking m rep"
  by (simp add: decode_steps_def shrinking_tag shrinking_entity shrinking_alternatives js_def)

lemma whitespace_length:
  "whitespace t = Some n \<Longrightarrow> length [sp] \<le> n \<and> n \<le> length t"
  using length_takeWhile_le [of isSpace t]
  by (auto simp: whitespace_def Let_def split: if_splits) (cases "takeWhile isSpace t", simp_all)

lemma length_trim: "length (trim s) \<le> length s"
proof -
  have "length (trim s) \<le> length (dropWhile isSpace s)"
    using length_dropWhile_le [of isSpace "rev (dropWhile isSpace s)"] by (simp add: trim_def)
  then show ?thesis using length_dropWhile_le [of isSpace s] by simp
qed


lemma nomatch_weaker:
  assumes "\<And>t. m t \<noteq> None \<Longrightarrow> m' t \<noteq> None" "nomatch m' s"
  shows "nomatch m s"
  using assms(2)
proof (induction s)
  case Nil
  show ?case by simp
next
  case (Cons c cs)
  have "m (c # cs) = None" using assms(1) [of "c # cs"] Cons.prems by (cases "m (c # cs)") auto
  then show ?case using Cons by simp
qed

lemma startsWith_append: "startsWith t p \<Longrightarrow> \<exists>r. t = p @ r"
  unfolding startsWith_def by (metis append_take_drop_id)

lemma alternatives_instance:
  assumes "\<forall>p \<in> set ps. \<forall>r. m' (p @ r) \<noteq> None" "alternatives ps t \<noteq> None"
  shows "m' t \<noteq> None"
proof -
  obtain n where "alternatives ps t = Some n" using assms(2) by auto
  then obtain p where p: "p \<in> set ps" "startsWith t p"
    using alternatives_Some_length by blast
  then obtain r where "t = p @ r" using startsWith_append by blast
  then show ?thesis using assms(1) p(1) by simp
qed

lemma named_literals:
  "entity (js ''&'') isLower (js ''&amp;'' @ r) \<noteq> None"
  "entity (js ''&'') isLower (js ''&lt;'' @ r) \<noteq> None"
  "entity (js ''&'') isLower (js ''&gt;'' @ r) \<noteq> None"
  "entity (js ''&'') isLower (js ''&quot;'' @ r) \<noteq> None"
  "entity (js ''&'') isLower (js ''&ldquo;'' @ r) \<noteq> None"
  "entity (js ''&'') isLower (js ''&rdquo;'' @ r) \<noteq> None"
  "entity (js ''&'') isLower (js ''&lsquo;'' @ r) \<noteq> None"
  "entity (js ''&'') isLower (js ''&rsquo;'' @ r) \<noteq> None"
  "entity (js ''&'') isLower (js ''&mdash;'' @ r) \<noteq> None"
  "entity (js ''&'') isLower (js ''&ndash;'' @ r) \<noteq> None"
  "entity (js ''&'') isLower (js ''&nbsp;'' @ r) \<noteq> None"
  by (simp_all add: entity_def startsWith_def js_def isLower_def)

lemma numeric_literals:
  "entity (js ''&#'') isDigit (js ''&#8220;'' @ r) \<noteq> None"
  "entity (js ''&#'') isDigit (js ''&#8221;'' @ r) \<noteq> None"
  "entity (js ''&#'') isDigit (js ''&#8216;'' @ r) \<noteq> None"
  "entity (js ''&#'') isDigit (js ''&#8217;'' @ r) \<noteq> None"
  "entity (js ''&#'') isDigit (js ''&#8212;'' @ r) \<noteq> None"
  "entity (js ''&#'') isDigit (js ''&#8211;'' @ r) \<noteq> None"
  by (simp_all add: entity_def startsWith_def js_def isDigit_def)

lemma nomatch_named:
  assumes "nomatch (entity (js ''&'') isLower) s" "\<forall>p \<in> set ps. \<forall>r. entity (js ''&'') isLower (p @ r) \<noteq> None"
  shows "nomatch (alternatives ps) s"
  using alternatives_instance [OF assms(2)] assms(1) by (rule nomatch_weaker)

lemma nomatch_either:
  assumes "nomatch (entity (js ''&#'') isDigit) s" "nomatch (entity (js ''&'') isLower) s"
      and "\<And>r. entity (js ''&#'') isDigit (p @ r) \<noteq> None"
      and "\<And>r. entity (js ''&'') isLower (q @ r) \<noteq> None"
  shows "nomatch (alternatives [p, q]) s"
  using assms(1,2)
proof (induction s)
  case Nil
  show ?case by simp
next
  case (Cons c cs)
  have d: "entity (js ''&#'') isDigit (c # cs) = None" using Cons.prems(1) by simp
  have l: "entity (js ''&'') isLower (c # cs) = None" using Cons.prems(2) by simp
  have "\<not> startsWith (c # cs) p"
  proof
    assume "startsWith (c # cs) p"
    then obtain r where "c # cs = p @ r" using startsWith_append by blast
    then show False using assms(3) [of r] d by metis
  qed
  moreover have "\<not> startsWith (c # cs) q"
  proof
    assume "startsWith (c # cs) q"
    then obtain r where "c # cs = q @ r" using startsWith_append by blast
    then show False using assms(4) [of r] l by metis
  qed
  ultimately show ?case using Cons by simp
qed

lemma no_markup_steps: "no_markup s \<longleftrightarrow> (\<forall>(m, rep) \<in> set decode_steps. nomatch m s)"
proof
  assume "\<forall>(m, rep) \<in> set decode_steps. nomatch m s"
  then show "no_markup s" by (simp add: decode_steps_def no_markup_def)
next
  assume n: "no_markup s"
  then have t: "nomatch tag s" and d: "nomatch (entity (js ''&#'') isDigit) s"
    and l: "nomatch (entity (js ''&'') isLower) s"
    by (simp_all add: no_markup_def)
  have one: "nomatch (alternatives [p]) s"
    if "\<And>r. entity (js ''&'') isLower (p @ r) \<noteq> None" for p
    using l that by (intro nomatch_named) simp_all
  show "\<forall>(m, rep) \<in> set decode_steps. nomatch m s"
    unfolding decode_steps_def
    using t d l
    by (simp add: one named_literals nomatch_either [OF d l] numeric_literals)
qed

lemma stripHtml_fixed_iff:
  "stripHtml (stripHtml x) = stripHtml x \<longleftrightarrow> no_markup (stripHtml x)"
proof -
  define y where "y = stripHtml x"
  define f where "f = foldl (\<lambda>s (m, rep). replace_all m rep s) y decode_steps"
  have ss: "single_spaced y"
    unfolding y_def stripHtml_steps by (intro single_spaced_trim single_spaced_collapse)
  have tr: "trim y = y" unfolding y_def stripHtml_steps by (rule trim_trim)
  have fe: "no_markup y \<Longrightarrow> f = y" and fl: "\<not> no_markup y \<Longrightarrow> length f < length y"
    using foldl_steps [OF shrinking_decode_steps, of y] by (simp_all add: f_def no_markup_steps)
  have sy: "stripHtml y = trim (replace_all whitespace [sp] f)"
    by (simp only: stripHtml_steps f_def)
  have "stripHtml y = y \<longleftrightarrow> no_markup y"
  proof
    assume "no_markup y"
    then have "f = y" using fe by simp
    then show "stripHtml y = y"
      by (simp add: sy collapse_single_spaced [OF ss] tr)
  next
    assume e: "stripHtml y = y"
    show "no_markup y"
    proof (rule ccontr)
      assume "\<not> no_markup y"
      then have "length f < length y" by (rule fl)
      moreover have "length (replace_all whitespace [sp] f) \<le> length f"
        by (rule length_replace_all_le) (rule whitespace_length)
      then have "length (stripHtml y) \<le> length f"
        using length_trim [of "replace_all whitespace [sp] f"] by (simp add: sy)
      ultimately show False using e by simp
    qed
  qed
  then show ?thesis by (simp add: y_def)
qed


lemma tag_lt: "tag t = Some n \<Longrightarrow> t \<noteq> [] \<and> hd t = lt"
  by (auto simp: tag_def split: list.splits if_splits)

lemma no_markup_plain:
  assumes "amp \<notin> set s" "lt \<notin> set s"
  shows "no_markup s"
  unfolding no_markup_def
proof (intro conjI)
  show "nomatch tag s" using tag_lt assms(2) by (rule nomatch_absent)
  show "nomatch (entity (js ''&#'') isDigit) s"
    unfolding js_amp using entity_amp assms(1) by (rule nomatch_absent)
  show "nomatch (entity (js ''&'') isLower) s"
    unfolding js_amp using entity_amp assms(1) by (rule nomatch_absent)
qed

lemma tom_and_jerry:
  "stripHtml (js ''Tom &amp; Jerry'') = js ''Tom & Jerry''"
  "no_markup (js ''Tom & Jerry'')"
  "stripHtml (js ''<p>a  <b>b</b> </p>'') = js ''a b''"
  "\<not> no_markup (js ''<b>'')"
  by code_simp+

subsection \<open>Claim about the normalizer\<close>

lemma stripHtml_escaped_tag: "stripHtml (js ''&lt;b&gt;'') = js ''<b>''"
  by code_simp

text \<open>
  C4 says that normalizing twice is the same as normalizing once. It is not: entities are
  decoded after the tags are removed, so the escaped tag \<open>&lt;b&gt;\<close> becomes \<open><b>\<close>, which
  a second pass removes as a tag.
\<close>

theorem stripHtml_not_idempotent:
  "stripHtml (stripHtml (js ''&lt;b&gt;'')) \<noteq> stripHtml (js ''&lt;b&gt;'')"
  by code_simp

text \<open>
  C4, amended. Normalizing twice is the same as normalizing once exactly when the normalized
  text holds no markup: no tag (a \<open><\<close>, at least one character other than \<open>>\<close>, and a
  \<open>>\<close>) and no entity reference of the shapes \<open>&#digits;\<close> and \<open>&name;\<close> with a name
  of lowercase letters. In particular it is so for every input without an ampersand, and
  whenever the normalized text has neither an ampersand nor a \<open><\<close>.
\<close>

theorem stripHtml_idempotent_iff:
  "(stripHtml (stripHtml x) = stripHtml x \<longleftrightarrow> no_markup (stripHtml x))
   \<and> (amp \<notin> set x \<longrightarrow> stripHtml (stripHtml x) = stripHtml x)
   \<and> (amp \<notin> set (stripHtml x) \<and> lt \<notin> set (stripHtml x) \<longrightarrow>
        stripHtml (stripHtml x) = stripHtml x)"
  using stripHtml_fixed_iff [of x] stripHtml_idempotent_no_ampersand [of x]
    no_markup_plain [of "stripHtml x"]
  by blast

theorem stripHtml_idempotent_iff_witness:
  "stripHtml (js ''Tom &amp; Jerry'') = js ''Tom & Jerry''
   \<and> no_markup (js ''Tom & Jerry'')
   \<and> stripHtml (js ''Tom & Jerry'') = js ''Tom & Jerry''
   \<and> amp \<notin> set (js ''<p>a  <b>b</b> </p>'')
   \<and> stripHtml (js ''<p>a  <b>b</b> </p>'') = js ''a b''
   \<and> amp \<notin> set (js ''a b'') \<and> lt \<notin> set (js ''a b'')
   \<and> stripHtml (js ''a b'') = js ''a b''
   \<and> \<not> no_markup (js ''<b>'')
   \<and> stripHtml (stripHtml (js ''&lt;b&gt;'')) \<noteq> stripHtml (js ''&lt;b&gt;'')"
proof -
  have a: "amp \<notin> set (js ''<p>a  <b>b</b> </p>'')" by (simp add: js_def amp_def)
  have b: "amp \<notin> set (js ''a b'') \<and> lt \<notin> set (js ''a b'')" by (simp add: js_def amp_def lt_def)
  show ?thesis
    using stripHtml_idempotent_iff [of "js ''Tom &amp; Jerry''"]
      stripHtml_idempotent_iff [of "js ''<p>a  <b>b</b> </p>''"]
      stripHtml_idempotent_iff [of "js ''&lt;b&gt;''"]
      a b
    unfolding tom_and_jerry(1,3) stripHtml_escaped_tag
    using tom_and_jerry(2,4) by blast
qed

section \<open>The section extractor\<close>

text \<open>
  \<open>s.indexOf(needle, fromIndex)\<close> is the first position at or after \<open>fromIndex\<close> where the
  needle occurs, or \<open>-1\<close>; \<open>s.slice(start, end)\<close> clamps both positions to the string, a
  negative one counting from the end.
\<close>

fun find_sub :: "jsstring \<Rightarrow> jsstring \<Rightarrow> nat option" where
  "find_sub needle [] = (if needle = [] then Some 0 else None)"
| "find_sub needle (c # cs) =
     (if startsWith (c # cs) needle then Some 0 else map_option Suc (find_sub needle cs))"

definition indexOf :: "jsstring \<Rightarrow> jsstring \<Rightarrow> int \<Rightarrow> int" where
  "indexOf s needle fromIndex =
     (let start = min (nat fromIndex) (length s)
      in case find_sub needle (drop start s) of
           None \<Rightarrow> - 1
         | Some k \<Rightarrow> int (start + k))"

definition slice :: "jsstring \<Rightarrow> int \<Rightarrow> int \<Rightarrow> jsstring" where
  "slice s start stop =
     (let len = int (length s);
          from = (if start < 0 then max (len + start) 0 else min start len);
          to = (if stop < 0 then max (len + stop) 0 else min stop len)
      in take (nat (to - from)) (drop (nat from) s))"

text \<open>
  Lines 62 to 73: the text between the heading that carries the anchor and the next \<open><h2\<close>,
  or 8000 characters of it. \<open>None\<close> is the early \<open>return []\<close> of line 64. When no \<open></h2>\<close>
  follows the anchor, \<open>indexOf\<close> gives \<open>-1\<close> and the section starts at position 4, as in the
  source.
\<close>

definition section_of :: "jsstring \<Rightarrow> jsstring option" where
  "section_of html =
     (let anchorIdx = indexOf html (js ''id=\"h-tiny-thoughts\"'') 0 in
      if anchorIdx = - 1 then None
      else
        let h2EndIdx = indexOf html (js ''</h2>'') anchorIdx + 5;
            nextH2Idx = indexOf html (js ''<h2'') h2EndIdx
        in Some (if nextH2Idx \<noteq> - 1 then slice html h2EndIdx nextH2Idx
                 else slice html h2EndIdx (h2EndIdx + 8000)))"

text \<open>
  \<open>/<hr[^>]*\/?>/\<close>: \<open><hr\<close>, then everything up to the next \<open>>\<close>, which must exist. The
  greedy class already takes a slash before the \<open>>\<close>, so the optional slash matches
  nothing.
\<close>

definition hr_tag :: matcher where
  "hr_tag s =
     (if startsWith s (js ''<hr'')
      then (let attrs = takeWhile (\<lambda>x. x \<noteq> gt) (drop 3 s)
            in if 3 + length attrs < length s then Some (3 + length attrs + 1) else None)
      else None)"

text \<open>
  \<open>s.split(/re/)\<close> for an expression without groups that cannot match the empty string: the
  pieces between the matches, of which there is always at least one.
\<close>

fun split_all :: "matcher \<Rightarrow> jsstring \<Rightarrow> jsstring list" where
  "split_all m [] = [[]]"
| "split_all m (c # cs) =
     (case m (c # cs) of
        Some n \<Rightarrow> [] # split_all m (drop (n - 1) cs)
      | None \<Rightarrow> (let ps = split_all m cs in (c # hd ps) # tl ps))"

text \<open>
  \<open>/<p[^>]*>([\s\S]*?)<\/p>/g\<close>: \<open><p\<close>, then everything up to the next \<open>>\<close>, then as
  little as possible up to the next \<open></p>\<close>. The matcher gives the text of the group and the
  length of the whole match. The loop of \<open>exec\<close> calls collects the group of every match,
  each search starting where the previous match ended.
\<close>

type_synonym capture_matcher = "jsstring \<Rightarrow> (jsstring \<times> nat) option"

definition p_element :: capture_matcher where
  "p_element s =
     (if startsWith s (js ''<p'')
      then (let attrs = takeWhile (\<lambda>x. x \<noteq> gt) (drop 2 s)
            in case drop (2 + length attrs) s of
                 [] \<Rightarrow> None
               | g # inner \<Rightarrow>
                   (case find_sub (js ''</p>'') inner of
                      None \<Rightarrow> None
                    | Some k \<Rightarrow> Some (take k inner, 2 + length attrs + 1 + k + 4)))
      else None)"

fun exec_all :: "capture_matcher \<Rightarrow> jsstring \<Rightarrow> jsstring list" where
  "exec_all m [] = []"
| "exec_all m (c # cs) =
     (case m (c # cs) of
        Some (cap, n) \<Rightarrow> cap # exec_all m (drop (n - 1) cs)
      | None \<Rightarrow> exec_all m cs)"

text \<open>
  Lines 78 to 93. \<open>group_parts\<close> is the array \<open>parts\<close> that lines 81 to 87 build for one
  group, \<open>item\<close> the object pushed at line 89, and \<open>collect\<close> the \<open>for\<close> loop over the
  groups with its \<open>break\<close>, started with no quotes.
\<close>

definition fragments :: "jsstring \<Rightarrow> jsstring list" where
  \<comment> \<open>the normalized inner text of every paragraph of a group, in document order\<close>
  "fragments grp = map stripHtml (exec_all p_element grp)"

definition group_parts :: "jsstring \<Rightarrow> jsstring list" where
  "group_parts grp = filter (\<lambda>t. length t > 5) (fragments grp)"

definition item :: "jsstring \<Rightarrow> jsstring \<Rightarrow> jsstring list \<Rightarrow> quote" where
  "item dt ed parts = \<lparr> qtext = join (js '' '') parts, edition = ed, date = dt \<rparr>"

fun collect :: "jsstring \<Rightarrow> jsstring \<Rightarrow> quote list \<Rightarrow> jsstring list \<Rightarrow> quote list" where
  "collect dt ed found [] = found"
| "collect dt ed found (grp # groups) =
     (if length found \<ge> 3 then found
      else
        let parts = group_parts grp
        in collect dt ed
             (if length parts > 0 then found @ [item dt ed parts] else found) groups)"

text \<open>Lines 59 to 94. A failed fetch is the rejected promise.\<close>

definition scrapeArticle ::
  "network \<Rightarrow> jsstring \<Rightarrow> jsstring \<Rightarrow> jsstring \<Rightarrow> error + quote list" where
  "scrapeArticle net url dt ed =
     (case fetchUrl net url 0 of
        Inl e \<Rightarrow> Inl e
      | Inr html \<Rightarrow>
          (case section_of html of
             None \<Rightarrow> Inr []
           | Some section \<Rightarrow> Inr (collect dt ed [] (split_all hr_tag section))))"

text \<open>Example data: a page whose section has four groups, and a server that serves it.\<close>

definition article_html :: jsstring where
  "article_html = js (''<h1>Brain Food</h1><h2 class=\"t\" id=\"h-tiny-thoughts\">Tiny Thoughts</h2>''
     @ ''<p>First thought here.</p><hr/><p class=\"a\">Second &amp; <em>bold</em>.</p>''
     @ ''<hr class=\"wp\"><p>Third one</p><p>x</p><p>continues.</p><hr><p>Fourth thought.</p><h2>Next</h2><p>Other text.</p>'')"

definition article_net :: network where
  "article_net k url = Answer \<lparr> statusCode = 200, location = None, chunks = [article_html],
                                finish = End \<rparr>"

definition article_section :: jsstring where
  "article_section = js (''<p>First thought here.</p><hr/><p class=\"a\">Second &amp; <em>bold</em>.</p>''
     @ ''<hr class=\"wp\"><p>Third one</p><p>x</p><p>continues.</p><hr><p>Fourth thought.</p>'')"

definition article_groups :: "jsstring list" where
  "article_groups =
     [js ''<p>First thought here.</p>'', js ''<p class=\"a\">Second &amp; <em>bold</em>.</p>'',
      js ''<p>Third one</p><p>x</p><p>continues.</p>'', js ''<p>Fourth thought.</p>'']"

subsection \<open>The loop over the groups\<close>

lemma collect_take:
  "length found \<le> 3 \<Longrightarrow>
   collect dt ed found groups
     = take 3 (found @ map (\<lambda>g. item dt ed (group_parts g))
                          (filter (\<lambda>g. group_parts g \<noteq> []) groups))"
proof (induction groups arbitrary: found)
  case Nil
  then show ?case by simp
next
  case (Cons g groups)
  show ?case
  proof (cases "length found \<ge> 3")
    case True
    then show ?thesis using Cons.prems by simp
  next
    case False
    show ?thesis
    proof (cases "group_parts g = []")
      case True
      then show ?thesis using False Cons.IH [of found] Cons.prems by simp
    next
      case nonempty: False
      have "length (found @ [item dt ed (group_parts g)]) \<le> 3" using False by simp
      then show ?thesis
        using False nonempty Cons.IH [of "found @ [item dt ed (group_parts g)]"] by simp
    qed
  qed
qed

lemma group_parts_short:
  "group_parts g = [] \<longleftrightarrow> (\<forall>f \<in> set (fragments g). length f \<le> 5)"
  by (auto simp: group_parts_def filter_empty_conv not_less)

lemma collect_from_empty:
  "collect dt ed [] groups
     = take 3 (map (\<lambda>g. item dt ed (group_parts g)) (filter (\<lambda>g. group_parts g \<noteq> []) groups))"
  using collect_take [of "[]" dt ed groups] by simp

lemma article_fetch: "fetchUrl article_net url 0 = Inr article_html"
proof -
  have "fetchUrl article_net url 0
          = Inr (concat (chunks \<lparr> statusCode = 200, location = None, chunks = [article_html],
                                 finish = End \<rparr>))"
    by (rule fetchUrl_final) (simp_all add: article_net_def redirect_location_def)
  then show ?thesis by simp
qed

lemma article_section_of: "section_of article_html = Some article_section"
  by code_simp

lemma article_split: "split_all hr_tag article_section = article_groups"
  by code_simp

lemma article_parts:
  "group_parts (article_groups ! 0) = [js ''First thought here.'']"
  "group_parts (article_groups ! 1) = [js ''Second & bold.'']"
  "group_parts (article_groups ! 2) = [js ''Third one'', js ''continues.'']"
  "fragments (article_groups ! 2) = [js ''Third one'', js ''x'', js ''continues.'']"
  by code_simp+


subsection \<open>Claim about the section extractor\<close>

text \<open>
  C6. The extractor never returns more than 3 items. When the page is fetched and has the
  anchor, the items are the first 3 groups of the section, in order, that have a surviving
  fragment: a group all of whose normalized paragraph fragments have at most 5 characters
  gives no item, and the text of an item is the fragments of its group that are longer than
  5 characters, in document order, joined by single spaces. In particular, when the section
  has four groups of which the first three have a surviving fragment, the result is the
  three items of those groups and the fourth group adds nothing.
\<close>

theorem scrapeArticle_items:
  "(\<forall>qs. scrapeArticle net url dt ed = Inr qs \<longrightarrow> length qs \<le> 3)
   \<and> (\<forall>html sec. fetchUrl net url 0 = Inr html \<and> section_of html = Some sec \<longrightarrow>
         scrapeArticle net url dt ed
           = Inr (take 3
                   (map (\<lambda>g. \<lparr> qtext = join (js '' '') (filter (\<lambda>f. length f > 5) (fragments g)),
                               edition = ed, date = dt \<rparr>)
                        (filter (\<lambda>g. \<not> (\<forall>f \<in> set (fragments g). length f \<le> 5))
                                (split_all hr_tag sec))))
         \<and> (\<forall>g1 g2 g3 g4.
               split_all hr_tag sec = [g1, g2, g3, g4]
               \<and> group_parts g1 \<noteq> [] \<and> group_parts g2 \<noteq> [] \<and> group_parts g3 \<noteq> [] \<longrightarrow>
               scrapeArticle net url dt ed
                 = Inr [item dt ed (group_parts g1), item dt ed (group_parts g2),
                        item dt ed (group_parts g3)]))"
proof (intro conjI allI impI)
  fix qs assume "scrapeArticle net url dt ed = Inr qs"
  then show "length qs \<le> 3"
    by (auto simp: scrapeArticle_def collect_from_empty split: sum.splits option.splits)
next
  fix html sec
  assume a: "fetchUrl net url 0 = Inr html \<and> section_of html = Some sec"
  then have s: "scrapeArticle net url dt ed = Inr (collect dt ed [] (split_all hr_tag sec))"
    by (simp add: scrapeArticle_def)
  show "scrapeArticle net url dt ed
           = Inr (take 3
                   (map (\<lambda>g. \<lparr> qtext = join (js '' '') (filter (\<lambda>f. length f > 5) (fragments g)),
                               edition = ed, date = dt \<rparr>)
                        (filter (\<lambda>g. \<not> (\<forall>f \<in> set (fragments g). length f \<le> 5))
                                (split_all hr_tag sec))))"
    unfolding s collect_from_empty group_parts_short by (simp add: item_def group_parts_def)
  fix g1 g2 g3 g4
  assume "split_all hr_tag sec = [g1, g2, g3, g4]
          \<and> group_parts g1 \<noteq> [] \<and> group_parts g2 \<noteq> [] \<and> group_parts g3 \<noteq> []"
  then show "scrapeArticle net url dt ed
                 = Inr [item dt ed (group_parts g1), item dt ed (group_parts g2),
                        item dt ed (group_parts g3)]"
    unfolding s collect_from_empty by simp
qed

theorem scrapeArticle_items_witness:
  "fetchUrl article_net (js ''https://fs.blog/brain-food/february-22-2026/'') 0 = Inr article_html
   \<and> section_of article_html = Some article_section
   \<and> split_all hr_tag article_section = article_groups
   \<and> length article_groups = 4
   \<and> fragments (article_groups ! 2) = [js ''Third one'', js ''x'', js ''continues.'']
   \<and> scrapeArticle article_net (js ''https://fs.blog/brain-food/february-22-2026/'')
         (js ''2026-02-22'') (js ''Brain Food'')
       = Inr [\<lparr> qtext = js ''First thought here.'', edition = js ''Brain Food'',
                  date = js ''2026-02-22'' \<rparr>,
              \<lparr> qtext = js ''Second & bold.'', edition = js ''Brain Food'',
                  date = js ''2026-02-22'' \<rparr>,
              \<lparr> qtext = js ''Third one continues.'', edition = js ''Brain Food'',
                  date = js ''2026-02-22'' \<rparr>]"
proof -
  have g: "article_groups
             = [article_groups ! 0, article_groups ! 1, article_groups ! 2, article_groups ! 3]"
    by (simp add: article_groups_def)
  have sp: "split_all hr_tag article_section
             = [article_groups ! 0, article_groups ! 1, article_groups ! 2, article_groups ! 3]"
    using article_split g by simp
  have ne: "group_parts (article_groups ! 0) \<noteq> []" "group_parts (article_groups ! 1) \<noteq> []"
    "group_parts (article_groups ! 2) \<noteq> []"
    unfolding article_parts by simp_all
  have j: "join (js '' '') [js ''Third one'', js ''continues.''] = js ''Third one continues.''"
    by (simp add: js_def)
  have "scrapeArticle article_net (js ''https://fs.blog/brain-food/february-22-2026/'')
          (js ''2026-02-22'') (js ''Brain Food'')
        = Inr [item (js ''2026-02-22'') (js ''Brain Food'') (group_parts (article_groups ! 0)),
               item (js ''2026-02-22'') (js ''Brain Food'') (group_parts (article_groups ! 1)),
               item (js ''2026-02-22'') (js ''Brain Food'') (group_parts (article_groups ! 2))]"
    using scrapeArticle_items [of article_net "js ''https://fs.blog/brain-food/february-22-2026/''"
            "js ''2026-02-22''" "js ''Brain Food''"]
      article_fetch [of "js ''https://fs.blog/brain-food/february-22-2026/''"]
      article_section_of sp ne
    by blast
  then show ?thesis
    using article_fetch article_section_of article_split article_parts j
    by (simp add: item_def) (simp add: article_groups_def)
qed

section \<open>The orchestrator\<close>

text \<open>
  What the script takes from its host, as parameters of the model: \<open>JSON.parse\<close> (\<open>None\<close>
  when it throws a \<open>SyntaxError\<close>) and \<open>JSON.stringify\<close> on the state, the time value of
  \<open>new Date(s)\<close> (\<open>None\<close> for an invalid date, whose value is \<open>NaN\<close>), and
  \<open>String.prototype.localeCompare\<close>. The state file is either absent or holds a text; a
  file that exists and cannot be read or written is not part of this model.
\<close>

record host =
  JSON_parse :: "jsstring \<Rightarrow> store option"
  JSON_stringify :: "store \<Rightarrow> jsstring"
  Date_value :: "jsstring \<Rightarrow> int option"
  localeCompare :: "jsstring \<Rightarrow> jsstring \<Rightarrow> int"

text \<open>
  The link pattern of line 111: \<open>href="\<close>, the fixed prefix, a lowercase letter, a greedy
  run of lowercase letters, digits and hyphens, then a hyphen, four digits, a slash and the
  closing quote. The slash is not in the class of the run, so the run has to end with the
  hyphen and the four digits, after at least one other character. The group is the URL
  between the quotes.
\<close>

definition article_link :: capture_matcher where
  "article_link s =
     (if startsWith s (js ''href=\"https://fs.blog/brain-food/'')
      then (case drop 33 s of
              [] \<Rightarrow> None
            | c # r \<Rightarrow>
                if isLower c
                then (let run = takeWhile (\<lambda>x. isLower x \<or> isDigit x \<or> x = of_char CHR ''-'') r;
                          year = drop (length run - 5) run
                      in if length run \<ge> 6 \<and> hd year = of_char CHR ''-'' \<and> list_all isDigit (tl year)
                            \<and> startsWith (drop (length run) r) (js ''/\"'')
                         then Some (js ''https://fs.blog/brain-food/'' @ [c] @ run @ js ''/'',
                                    33 + 1 + length run + 2)
                         else None)
                else None)
      else None)"

text \<open>
  Line 124: \<open>url.replace(prefix, '')\<close> with a string pattern replaces its first occurrence,
  and \<open>.replace(/\/$/, '')\<close> removes a slash at the very end.
\<close>

fun replace_first :: "jsstring \<Rightarrow> jsstring \<Rightarrow> jsstring \<Rightarrow> jsstring" where
  "replace_first pat rep [] = (if pat = [] then rep else [])"
| "replace_first pat rep (c # cs) =
     (if startsWith (c # cs) pat then rep @ drop (length pat) (c # cs)
      else c # replace_first pat rep cs)"

definition remove_final_slash :: "jsstring \<Rightarrow> jsstring" where
  "remove_final_slash s = (if s \<noteq> [] \<and> last s = of_char CHR ''/'' then butlast s else s)"

definition slug_of :: "jsstring \<Rightarrow> jsstring" where
  "slug_of url = remove_final_slash (replace_first (js ''https://fs.blog/brain-food/'') [] url)"

text \<open>The objects \<open>{ url, date, slug }\<close> of line 128.\<close>

record article =
  article_url :: jsstring
  article_date :: jsstring
  article_slug :: jsstring

text \<open>
  Line 127, \<open>new Date(date) > lastUpdatedDate\<close>: both dates are converted to their time
  values, and a comparison with \<open>NaN\<close> is false.
\<close>

definition newer :: "host \<Rightarrow> jsstring \<Rightarrow> jsstring \<Rightarrow> bool" where
  "newer h d lastUpdatedDate =
     (case Date_value h d of
        None \<Rightarrow> False
      | Some a \<Rightarrow> (case Date_value h lastUpdatedDate of None \<Rightarrow> False | Some b \<Rightarrow> a > b))"

text \<open>
  Lines 122 to 130, the loop over the set of URLs in insertion order. \<open>!date\<close> holds for
  \<open>null\<close> and for the empty string.
\<close>

fun newer_articles :: "host \<Rightarrow> store \<Rightarrow> jsstring list \<Rightarrow> article list" where
  "newer_articles h existing [] = []"
| "newer_articles h existing (url # urls) =
     (let slug = slug_of url in
      case parseDateFromSlug slug of
        None \<Rightarrow> newer_articles h existing urls
      | Some d \<Rightarrow>
          if d = [] then newer_articles h existing urls
          else if newer h d (lastUpdated existing)
          then \<lparr> article_url = url, article_date = d, article_slug = slug \<rparr>
                 # newer_articles h existing urls
          else newer_articles h existing urls)"

text \<open>
  Line 133. \<open>Array.prototype.sort\<close> with a comparison function is a stable sort: an element
  goes before another when the function gives a negative number, and elements for which it
  gives 0 keep their order. For a consistent comparison function every stable sort gives the
  same result; it is written here as an insertion sort.
\<close>

fun insert_by :: "('a \<Rightarrow> 'a \<Rightarrow> int) \<Rightarrow> 'a \<Rightarrow> 'a list \<Rightarrow> 'a list" where
  "insert_by cmp x [] = [x]"
| "insert_by cmp x (y # ys) = (if cmp x y \<le> 0 then x # y # ys else y # insert_by cmp x ys)"

definition sort_by :: "('a \<Rightarrow> 'a \<Rightarrow> int) \<Rightarrow> 'a list \<Rightarrow> 'a list" where
  "sort_by cmp xs = foldr (insert_by cmp) xs []"

definition articles_of :: "host \<Rightarrow> store \<Rightarrow> jsstring list \<Rightarrow> article list" where
  "articles_of h existing urlSet =
     sort_by (\<lambda>a b. localeCompare h (article_date a) (article_date b))
       (newer_articles h existing urlSet)"

text \<open>
  Lines 141 to 145, the edition label. \<open>toUpperCase\<close> is applied to the first character of
  the slug, which the link pattern makes a lowercase ASCII letter; on other characters the
  model leaves it unchanged.
\<close>

definition toUpperCase :: "jsstring \<Rightarrow> jsstring" where
  "toUpperCase s = map (\<lambda>c. if isLower c then c - 32 else c) s"

definition edition_of :: "jsstring \<Rightarrow> jsstring" where
  "edition_of slug =
     (let parts = split_char (of_char CHR ''-'') slug;
          year = parts ! (length parts - 1);
          day = parseInt (parts ! (length parts - 2));
          monthName = join (js '' '') (take (length parts - 2) parts)
      in js ''Brain Food '' @ [0x2013] @ js '' '' @ toUpperCase (take 1 monthName) @ drop 1 monthName
         @ js '' '' @ String_nat day @ js '', '' @ year)"

text \<open>
  Lines 136 to 162: a failed article and an article without quotes add nothing, and the run
  goes on with the next article.
\<close>

fun scrape_all :: "network \<Rightarrow> article list \<Rightarrow> quote list" where
  "scrape_all net [] = []"
| "scrape_all net (a # articles) =
     (case scrapeArticle net (article_url a) (article_date a) (edition_of (article_slug a)) of
        Inl e \<Rightarrow> scrape_all net articles
      | Inr found \<Rightarrow>
          if length found = 0 then scrape_all net articles
          else found @ scrape_all net articles)"

text \<open>
  Lines 99 to 102, then the rest of \<open>main\<close> from line 107 on, then \<open>main\<close> and the top level
  of the script: the exit status and the content of the state file after the run. A
  rejected \<open>main\<close> leaves the file as it was and exits with status 1.
\<close>

definition load :: "host \<Rightarrow> jsstring option \<Rightarrow> error + store" where
  "load h file =
     (case file of
        None \<Rightarrow> Inr \<lparr> lastUpdated = js ''2025-12-01'', quotes = [] \<rparr>
      | Some content \<Rightarrow>
          (case JSON_parse h content of None \<Rightarrow> Inl SyntaxError | Some existing \<Rightarrow> Inr existing))"

definition proceed :: "host \<Rightarrow> network \<Rightarrow> store \<Rightarrow> error + store" where
  "proceed h net existing =
     (case fetchUrl net (js ''https://fs.blog/brain-food/'') 0 of
        Inl e \<Rightarrow> Inl e
      | Inr indexHtml \<Rightarrow>
          (let urlSet = newSet (exec_all article_link indexHtml);
               articles = articles_of h existing urlSet;
               newQuotes = scrape_all net articles
           in Inr (merge existing newQuotes)))"

definition main :: "host \<Rightarrow> network \<Rightarrow> jsstring option \<Rightarrow> error + store" where
  "main h net file = (case load h file of Inl e \<Rightarrow> Inl e | Inr existing \<Rightarrow> proceed h net existing)"

definition run :: "host \<Rightarrow> network \<Rightarrow> jsstring option \<Rightarrow> nat \<times> jsstring option" where
  "run h net file =
     (case main h net file of
        Inl e \<Rightarrow> (1, file)
      | Inr output \<Rightarrow> (0, Some (JSON_stringify h output)))"

text \<open>
  A comparison function is consistent when "not after" (a result that is not positive) is
  total and transitive.
\<close>

definition total_preorder :: "('a \<Rightarrow> 'a \<Rightarrow> int) \<Rightarrow> bool" where
  "total_preorder cmp =
     ((\<forall>x y. cmp x y \<le> 0 \<or> cmp y x \<le> 0)
      \<and> (\<forall>x y z. cmp x y \<le> 0 \<and> cmp y z \<le> 0 \<longrightarrow> cmp x z \<le> 0))"

text \<open>
  An example host: its \<open>Date\<close> orders the strings of the form \<open>YYYY-MM-DD\<close> by year, month
  and day and takes every other string for an invalid date, its \<open>localeCompare\<close> compares
  code units, and its serializer writes the fields of the state one after the other.
\<close>

definition iso_value :: "jsstring \<Rightarrow> int option" where
  "iso_value s =
     (let digits = take 4 s @ take 2 (drop 5 s) @ drop 8 s
      in if length s = 10 \<and> s ! 4 = of_char CHR ''-'' \<and> s ! 7 = of_char CHR ''-''
            \<and> list_all isDigit digits
         then Some (foldl (\<lambda>n c. 10 * n + (uint c - 48)) 0 digits) else None)"

definition code_unit_compare :: "jsstring \<Rightarrow> jsstring \<Rightarrow> int" where
  "code_unit_compare a b = (if a < b then - 1 else if a = b then 0 else 1)"

definition toy_stringify :: "store \<Rightarrow> jsstring" where
  "toy_stringify st =
     lastUpdated st @ concat (map (\<lambda>q. js ''|'' @ date q @ js '':'' @ qtext q) (quotes st))"

definition toy_parse :: "jsstring \<Rightarrow> store option" where
  "toy_parse content = find (\<lambda>st. toy_stringify st = content) [old_store, kept_store]"

definition example_host :: host where
  "example_host = \<lparr> JSON_parse = toy_parse, JSON_stringify = toy_stringify,
                     Date_value = iso_value, localeCompare = code_unit_compare \<rparr>"



definition quiet_index :: jsstring where
  "quiet_index = js ''<a href=\"https://fs.blog/brain-food/february-1-2026/\">Brain Food</a>''"

definition quiet_net :: network where
  "quiet_net k url = Answer \<lparr> statusCode = 200, location = None, chunks = [quiet_index],
                              finish = End \<rparr>"










text \<open>The stored example state of thirteen editions after a run that finds nothing new.\<close>

definition pruned_store :: store where
  "pruned_store = \<lparr> lastUpdated = js ''2026-01-25'', quotes = drop 1 old_quotes \<rparr>"

text \<open>
  A small site: an index page with one link, and an article whose section has two groups
  with text and one whose only paragraph is blank.
\<close>

definition site_index :: jsstring where
  "site_index = js ''<a href=\"https://fs.blog/brain-food/february-22-2026/\">Brain Food</a>''"

definition site_page :: jsstring where
  "site_page = js (''<h2 id=\"h-tiny-thoughts\">Tiny Thoughts</h2><p>Be kind to all.</p><hr>''
                   @ ''<p> </p><hr/><p>Read &amp; write.</p><h2>More</h2>'')"

definition site_net :: network where
  "site_net k url =
     Answer \<lparr> statusCode = 200, location = None,
              chunks = [if url = js ''https://fs.blog/brain-food/'' then site_index else site_page],
              finish = End \<rparr>"

definition site_result :: store where
  "site_result =
     \<lparr> lastUpdated = js ''2026-02-22'',
       quotes =
         [\<lparr> qtext = js ''Be kind to all.'',
             edition = js ''Brain Food '' @ [0x2013] @ js '' February 22, 2026'',
             date = js ''2026-02-22'' \<rparr>,
          \<lparr> qtext = js ''Read & write.'',
             edition = js ''Brain Food '' @ [0x2013] @ js '' February 22, 2026'',
             date = js ''2026-02-22'' \<rparr>] \<rparr>"

subsection \<open>Sorting and selecting\<close>

lemma set_insert_by: "set (insert_by cmp x xs) = insert x (set xs)"
  by (induction xs) auto

lemma set_sort_by: "set (sort_by cmp xs) = set xs"
  by (induction xs) (auto simp: sort_by_def set_insert_by)

lemma map_insert_by_distinct:
  "f x \<notin> f ` set xs \<Longrightarrow> distinct (map f xs) \<Longrightarrow> distinct (map f (insert_by cmp x xs))"
  by (induction xs) (auto simp: set_insert_by)

lemma distinct_sort_by: "distinct (map f xs) \<Longrightarrow> distinct (map f (sort_by cmp xs))"
proof (induction xs)
  case Nil
  show ?case by (simp add: sort_by_def)
next
  case (Cons x xs)
  have "sort_by cmp (x # xs) = insert_by cmp x (sort_by cmp xs)" by (simp add: sort_by_def)
  moreover have "f x \<notin> f ` set (sort_by cmp xs)" using Cons.prems by (simp add: set_sort_by)
  ultimately show ?case using Cons by (simp add: map_insert_by_distinct)
qed

lemma sorted_insert_by:
  assumes "total_preorder cmp" "sorted_wrt (\<lambda>a b. cmp a b \<le> 0) xs"
  shows "sorted_wrt (\<lambda>a b. cmp a b \<le> 0) (insert_by cmp x xs)"
  using assms(2)
proof (induction xs)
  case Nil
  show ?case by simp
next
  case (Cons y ys)
  show ?case
  proof (cases "cmp x y \<le> 0")
    case True
    have "\<forall>z \<in> set ys. cmp x z \<le> 0"
      using True Cons.prems assms(1) unfolding total_preorder_def by (metis sorted_wrt.simps(2))
    then show ?thesis using True Cons.prems by simp
  next
    case False
    then have "cmp y x \<le> 0" using assms(1) unfolding total_preorder_def by blast
    then show ?thesis using False Cons by (auto simp: set_insert_by)
  qed
qed

lemma sorted_sort_by:
  "total_preorder cmp \<Longrightarrow> sorted_wrt (\<lambda>a b. cmp a b \<le> 0) (sort_by cmp xs)"
  by (induction xs) (simp_all add: sort_by_def sorted_insert_by)

lemma parseDateFromSlug_nonempty: "parseDateFromSlug s = Some d \<Longrightarrow> d \<noteq> []"
  by (auto simp: parseDateFromSlug_def Let_def js_def split: if_splits)

lemma newer_articles_iff:
  "a \<in> set (newer_articles h existing urls) \<longleftrightarrow>
     article_url a \<in> set urls
     \<and> article_slug a = slug_of (article_url a)
     \<and> parseDateFromSlug (slug_of (article_url a)) = Some (article_date a)
     \<and> newer h (article_date a) (lastUpdated existing)"
proof (induction urls)
  case Nil
  show ?case by simp
next
  case (Cons u urls)
  show ?case
  proof (cases "parseDateFromSlug (slug_of u)")
    case None
    then show ?thesis using Cons by auto
  next
    case (Some d)
    then have "d \<noteq> []" by (rule parseDateFromSlug_nonempty)
    then show ?thesis using Some Cons by (cases a) (auto simp: Let_def)
  qed
qed

lemma newer_articles_urls:
  "map article_url (newer_articles h existing urls)
     = filter (\<lambda>u. \<exists>d. parseDateFromSlug (slug_of u) = Some d \<and> newer h d (lastUpdated existing))
         urls"
proof (induction urls)
  case Nil
  show ?case by simp
next
  case (Cons u urls)
  show ?case
  proof (cases "parseDateFromSlug (slug_of u)")
    case None
    then show ?thesis using Cons by simp
  next
    case (Some d)
    then have "d \<noteq> []" by (rule parseDateFromSlug_nonempty)
    then show ?thesis using Some Cons by (simp add: Let_def)
  qed
qed




lemma main_Inr:
  assumes "main h net file = Inr out"
  shows "\<exists>existing indexHtml.
           load h file = Inr existing
           \<and> fetchUrl net (js ''https://fs.blog/brain-food/'') 0 = Inr indexHtml
           \<and> out = merge existing
                     (scrape_all net
                        (articles_of h existing (newSet (exec_all article_link indexHtml))))"
  using assms by (auto simp: main_def proceed_def Let_def split: sum.splits)

lemma articles_of_newer:
  "(\<forall>u. u \<in> set (map article_url (articles_of h existing urlSet)) \<longleftrightarrow>
          u \<in> set urlSet
          \<and> (\<exists>d. parseDateFromSlug (slug_of u) = Some d \<and> newer h d (lastUpdated existing)))
   \<and> (\<forall>a \<in> set (articles_of h existing urlSet).
          article_slug a = slug_of (article_url a)
          \<and> parseDateFromSlug (article_slug a) = Some (article_date a))
   \<and> (distinct urlSet \<longrightarrow> distinct (map article_url (articles_of h existing urlSet)))
   \<and> (total_preorder (localeCompare h) \<longrightarrow>
         sorted_wrt (\<lambda>a b. localeCompare h (article_date a) (article_date b) \<le> 0)
           (articles_of h existing urlSet))"
proof -
  have sel: "set (articles_of h existing urlSet) = set (newer_articles h existing urlSet)"
    by (simp add: articles_of_def set_sort_by)
  have 1: "\<forall>u. u \<in> set (map article_url (articles_of h existing urlSet)) \<longleftrightarrow>
          u \<in> set urlSet
          \<and> (\<exists>d. parseDateFromSlug (slug_of u) = Some d \<and> newer h d (lastUpdated existing))"
    unfolding set_map sel
    unfolding set_map [symmetric] newer_articles_urls by simp
  have 2: "\<forall>a \<in> set (articles_of h existing urlSet).
          article_slug a = slug_of (article_url a)
          \<and> parseDateFromSlug (article_slug a) = Some (article_date a)"
    unfolding sel by (simp add: newer_articles_iff)
  have 3: "distinct urlSet \<longrightarrow> distinct (map article_url (articles_of h existing urlSet))"
  proof
    assume "distinct urlSet"
    then have "distinct (map article_url (newer_articles h existing urlSet))"
      by (simp only: newer_articles_urls distinct_filter)
    then show "distinct (map article_url (articles_of h existing urlSet))"
      unfolding articles_of_def by (rule distinct_sort_by)
  qed
  have 4: "total_preorder (localeCompare h) \<longrightarrow>
         sorted_wrt (\<lambda>a b. localeCompare h (article_date a) (article_date b) \<le> 0)
           (articles_of h existing urlSet)"
  proof
    assume t: "total_preorder (localeCompare h)"
    have "total_preorder (\<lambda>a b. localeCompare h (article_date a) (article_date b))"
      using t unfolding total_preorder_def by blast
    then have "sorted_wrt (\<lambda>a b. localeCompare h (article_date a) (article_date b) \<le> 0)
                 (sort_by (\<lambda>a b. localeCompare h (article_date a) (article_date b))
                    (newer_articles h existing urlSet))"
      by (rule sorted_sort_by)
    then show "sorted_wrt (\<lambda>a b. localeCompare h (article_date a) (article_date b) \<le> 0)
             (articles_of h existing urlSet)"
      by (simp add: articles_of_def)
  qed
  show ?thesis using 1 2 3 4 by blast
qed

subsection \<open>Calendar dates and their order\<close>














subsection \<open>The examples, evaluated\<close>


lemma toy_parse_corrupt: "JSON_parse example_host (js ''{oops'') = None"
  by code_simp

lemma toy_parse_kept: "JSON_parse example_host (toy_stringify kept_store) = Some kept_store"
  by code_simp

lemma quiet_fetch: "fetchUrl quiet_net url 0 = Inr quiet_index"
proof -
  have "fetchUrl quiet_net url 0
          = Inr (concat (chunks \<lparr> statusCode = 200, location = None, chunks = [quiet_index],
                                 finish = End \<rparr>))"
    by (rule fetchUrl_final) (simp_all add: quiet_net_def redirect_location_def)
  then show ?thesis by simp
qed

lemma quiet_articles:
  "articles_of example_host kept_store (newSet (exec_all article_link quiet_index)) = []"
  by code_simp

lemma quiet_links:
  "newSet (exec_all article_link quiet_index) = [js ''https://fs.blog/brain-food/february-1-2026/'']"
  by code_simp




lemma toy_parse_old: "JSON_parse example_host (toy_stringify old_store) = Some old_store"
  by code_simp

lemma main_pruning:
  "main example_host quiet_net (Some (toy_stringify old_store)) = Inr pruned_store"
  by code_simp

lemma pruned_facts:
  "mk_quote ''a'' ''2025-11-02'' \<in> set (quotes old_store)"
  "mk_quote ''a'' ''2025-11-02'' \<notin> set (quotes pruned_store)"
  "quotes pruned_store \<noteq> []"
  by code_simp+

text \<open>
  A first run on the small site, without a state file: the state written has the date of
  the article as \<open>lastUpdated\<close> and its two quotes, labelled with the edition.
\<close>

lemma main_example: "main example_host site_net None = Inr site_result"
  by code_simp

lemma run_example:
  "run example_host site_net None = (0, Some (toy_stringify site_result))"
  unfolding run_def main_example by (simp add: example_host_def)

subsection \<open>Claims about the orchestrator\<close>




text \<open>
  C2. The state that a successful run writes satisfies the invariant of the store: the run
  writes the serialization of the state that \<open>main\<close> computes, that state is the merge of
  the state loaded with the quotes scraped, when it holds quotes its \<open>lastUpdated\<close> is the
  largest date among them and they have at most 12 distinct dates, when it holds none its
  \<open>lastUpdated\<close> is the one loaded, and no quote whose date is outside the 12 largest
  distinct dates of the combined sequence remains. A run that fails writes nothing. The
  same holds of the merge step for every state and every batch.
\<close>

theorem run_writes_invariant:
  "(\<forall>out. main h net file = Inr out \<longrightarrow>
      store_inv out
      \<and> run h net file = (0, Some (JSON_stringify h out))
      \<and> (\<exists>existing indexHtml newQuotes.
            load h file = Inr existing
            \<and> fetchUrl net (js ''https://fs.blog/brain-food/'') 0 = Inr indexHtml
            \<and> newQuotes = scrape_all net
                            (articles_of h existing (newSet (exec_all article_link indexHtml)))
            \<and> out = merge existing newQuotes
            \<and> (quotes out = [] \<longrightarrow> lastUpdated out = lastUpdated existing)
            \<and> (\<forall>q \<in> set (quotes existing @ newQuotes).
                  \<not> among_largest 12 (date q) (map date (quotes existing @ newQuotes)) \<longrightarrow>
                  q \<notin> set (quotes out))))
   \<and> (\<forall>e. main h net file = Inl e \<longrightarrow> run h net file = (1, file))
   \<and> store_inv (merge st new)
   \<and> (quotes (merge st new) = [] \<longrightarrow> lastUpdated (merge st new) = lastUpdated st)
   \<and> (\<forall>q \<in> set (quotes st @ new).
         \<not> among_largest 12 (date q) (map date (quotes st @ new)) \<longrightarrow>
         q \<notin> set (quotes (merge st new)))"
proof -
  have 1: "\<forall>out. main h net file = Inr out \<longrightarrow>
      store_inv out
      \<and> run h net file = (0, Some (JSON_stringify h out))
      \<and> (\<exists>existing indexHtml newQuotes.
            load h file = Inr existing
            \<and> fetchUrl net (js ''https://fs.blog/brain-food/'') 0 = Inr indexHtml
            \<and> newQuotes = scrape_all net
                            (articles_of h existing (newSet (exec_all article_link indexHtml)))
            \<and> out = merge existing newQuotes
            \<and> (quotes out = [] \<longrightarrow> lastUpdated out = lastUpdated existing)
            \<and> (\<forall>q \<in> set (quotes existing @ newQuotes).
                  \<not> among_largest 12 (date q) (map date (quotes existing @ newQuotes)) \<longrightarrow>
                  q \<notin> set (quotes out)))"
  proof (intro allI impI)
    fix out assume m: "main h net file = Inr out"
    obtain existing indexHtml where e:
      "load h file = Inr existing"
      "fetchUrl net (js ''https://fs.blog/brain-food/'') 0 = Inr indexHtml"
      "out = merge existing
               (scrape_all net (articles_of h existing (newSet (exec_all article_link indexHtml))))"
      using main_Inr [OF m] by blast
    have a: "store_inv out" unfolding e(3) by (rule store_inv_merge)
    have b: "run h net file = (0, Some (JSON_stringify h out))" using m by (simp add: run_def)
    have c: "\<exists>existing indexHtml newQuotes.
            load h file = Inr existing
            \<and> fetchUrl net (js ''https://fs.blog/brain-food/'') 0 = Inr indexHtml
            \<and> newQuotes = scrape_all net
                            (articles_of h existing (newSet (exec_all article_link indexHtml)))
            \<and> out = merge existing newQuotes
            \<and> (quotes out = [] \<longrightarrow> lastUpdated out = lastUpdated existing)
            \<and> (\<forall>q \<in> set (quotes existing @ newQuotes).
                  \<not> among_largest 12 (date q) (map date (quotes existing @ newQuotes)) \<longrightarrow>
                  q \<notin> set (quotes out))"
      using e merge_pruned merge_empty_keeps_watermark by blast
    show "store_inv out
      \<and> run h net file = (0, Some (JSON_stringify h out))
      \<and> (\<exists>existing indexHtml newQuotes.
            load h file = Inr existing
            \<and> fetchUrl net (js ''https://fs.blog/brain-food/'') 0 = Inr indexHtml
            \<and> newQuotes = scrape_all net
                            (articles_of h existing (newSet (exec_all article_link indexHtml)))
            \<and> out = merge existing newQuotes
            \<and> (quotes out = [] \<longrightarrow> lastUpdated out = lastUpdated existing)
            \<and> (\<forall>q \<in> set (quotes existing @ newQuotes).
                  \<not> among_largest 12 (date q) (map date (quotes existing @ newQuotes)) \<longrightarrow>
                  q \<notin> set (quotes out)))"
      using a b c by (intro conjI)
  qed
  have 2: "\<forall>e. main h net file = Inl e \<longrightarrow> run h net file = (1, file)"
    by (simp add: run_def)
  show ?thesis
    using 1 2 store_inv_merge [of st new] merge_empty_keeps_watermark [of st new]
      merge_pruned [of st new]
    by (intro conjI)
qed

theorem run_writes_invariant_witness:
  "main example_host quiet_net (Some (toy_stringify old_store)) = Inr pruned_store
   \<and> run example_host quiet_net (Some (toy_stringify old_store))
       = (0, Some (toy_stringify pruned_store))
   \<and> quotes pruned_store \<noteq> []
   \<and> lastUpdated pruned_store = Max (dates_of (quotes pruned_store))
   \<and> card (dates_of (quotes pruned_store)) \<le> 12
   \<and> mk_quote ''a'' ''2025-11-02'' \<in> set (quotes old_store)
   \<and> mk_quote ''a'' ''2025-11-02'' \<notin> set (quotes pruned_store)
   \<and> main example_host quiet_net (Some (js ''{oops'')) = Inl SyntaxError
   \<and> run example_host quiet_net (Some (js ''{oops'')) = (1, Some (js ''{oops''))"
proof -
  have s: "JSON_stringify example_host pruned_store = toy_stringify pruned_store"
    by (simp add: example_host_def)
  have c: "main example_host quiet_net (Some (js ''{oops'')) = Inl SyntaxError"
    using toy_parse_corrupt by (simp add: main_def load_def)
  show ?thesis
    using run_writes_invariant [of example_host quiet_net "Some (toy_stringify old_store)"]
      run_writes_invariant [of example_host quiet_net "Some (js ''{oops'')"]
      main_pruning pruned_facts s c
    by (auto simp: store_inv_def)
qed

text \<open>
  C9. When the state file is absent, the run goes on from the default state, whose
  \<open>lastUpdated\<close> is \<open>2025-12-01\<close> and which has no quotes. When the file is present and
  \<open>JSON.parse\<close> rejects its text, \<open>main\<close> fails with that error, the process exits with
  status 1, and the file is left as it was: the state is not reset to the default.
\<close>

theorem load_failure_shapes:
  "main h net None = proceed h net \<lparr> lastUpdated = js ''2025-12-01'', quotes = [] \<rparr>
   \<and> (JSON_parse h content = None \<longrightarrow>
         main h net (Some content) = Inl SyntaxError
         \<and> run h net (Some content) = (1, Some content))"
  by (simp add: main_def load_def run_def)

theorem load_failure_shapes_witness:
  "JSON_parse example_host (js ''{oops'') = None
   \<and> main example_host quiet_net (Some (js ''{oops'')) = Inl SyntaxError
   \<and> run example_host quiet_net (Some (js ''{oops'')) = (1, Some (js ''{oops''))"
  using load_failure_shapes [of example_host quiet_net "js ''{oops''"] toy_parse_corrupt
  by simp

text \<open>
  C5. Merging a state that satisfies the invariant of the store with an empty batch gives
  that state back. So a run that finds no article newer than \<open>lastUpdated\<close> writes the
  serialization of the state it has read: when the file holds that serialization, as it
  does after an earlier run, the file after the run is the same text.
\<close>

theorem rerun_without_news:
  assumes "store_inv st"
  shows "merge st [] = st
       \<and> (\<forall>h net content indexHtml.
             JSON_parse h content = Some st
             \<and> fetchUrl net (js ''https://fs.blog/brain-food/'') 0 = Inr indexHtml
             \<and> articles_of h st (newSet (exec_all article_link indexHtml)) = []
             \<and> JSON_stringify h st = content
             \<longrightarrow> run h net (Some content) = (0, Some content))"
proof -
  have m: "merge st [] = st" using assms by (rule merge_identity)
  then show ?thesis
    by (simp add: run_def main_def load_def proceed_def Let_def)
qed

theorem rerun_without_news_witness:
  "store_inv kept_store
   \<and> merge kept_store [] = kept_store
   \<and> JSON_parse example_host (toy_stringify kept_store) = Some kept_store
   \<and> fetchUrl quiet_net (js ''https://fs.blog/brain-food/'') 0 = Inr quiet_index
   \<and> newSet (exec_all article_link quiet_index) = [js ''https://fs.blog/brain-food/february-1-2026/'']
   \<and> articles_of example_host kept_store (newSet (exec_all article_link quiet_index)) = []
   \<and> run example_host quiet_net (Some (toy_stringify kept_store))
       = (0, Some (toy_stringify kept_store))"
proof -
  have s: "JSON_stringify example_host kept_store = toy_stringify kept_store"
    by (simp add: example_host_def)
  show ?thesis
    using rerun_without_news [OF store_inv_example] store_inv_example toy_parse_kept
      quiet_fetch [of "js ''https://fs.blog/brain-food/''"] quiet_articles quiet_links s
    by blast
qed

end
